theory Spec2Isabelle
  imports Main
begin

section \<open>JSDev: the character stream\<close>

text \<open>
  The embedding follows \<^verbatim>\<open>src/jsdev.js\<close>. The variables that the closures of
  \<^verbatim>\<open>jsdev\<close> share (\<^verbatim>\<open>lines\<close>, \<^verbatim>\<open>line\<close>, \<^verbatim>\<open>line_nr\<close>,
  \<^verbatim>\<open>preview\<close>, \<^verbatim>\<open>outputs\<close>) are the fields of a record that every routine takes
  and returns. A character is a \<^typ>\<open>char\<close>; the end-of-input sentinel \<^verbatim>\<open>null\<close>, and the
  values \<^verbatim>\<open>undefined\<close> and \<^verbatim>\<open>null\<close> of \<^verbatim>\<open>line\<close> and \<^verbatim>\<open>preview\<close>,
  are \<^const>\<open>None\<close>. A thrown \<^verbatim>\<open>Error\<close> is \<^const>\<open>Inl\<close> of its message. The one loop
  of the file that can run forever, the tag loop of \<^verbatim>\<open>process\<close>, and the routines
  around it have an \<open>option\<close> result, in which \<^const>\<open>None\<close> stands for not returning.
\<close>

abbreviation NL :: char where "NL \<equiv> CHR 0x0A"
abbreviation CR :: char where "CR \<equiv> CHR 0x0D"
abbreviation BSL :: char where "BSL \<equiv> CHR 0x5C"
abbreviation SQ :: char where "SQ \<equiv> CHR 0x27"
abbreviation DQ :: char where "DQ \<equiv> CHR 0x22"
abbreviation BQ :: char where "BQ \<equiv> CHR 0x60"

record state =
  lines :: "string list"
  line :: "string option"
  line_nr :: int
  preview :: "char option"
  outputs :: "string list"

text \<open>Decimal rendering of a number, as string concatenation does in the source.\<close>

fun show_nat :: "nat \<Rightarrow> string" where
  "show_nat n = (if n < 10 then [''0123456789'' ! n]
                 else show_nat (n div 10) @ [''0123456789'' ! (n mod 10)])"

declare show_nat.simps [simp del]

definition show_int :: "int \<Rightarrow> string" where
  "show_int i = (if i < 0 then CHR ''-'' # show_nat (nat (- i)) else show_nat (nat i))"

text \<open>\<^verbatim>\<open>error\<close>: the message that is thrown; \<^verbatim>\<open>(line_nr + 1) || "bad tag"\<close>.\<close>

definition error :: "int \<Rightarrow> string \<Rightarrow> string" where
  "error nr message =
     ''JSDev: '' @ (if nr + 1 = 0 then ''bad tag'' else show_int (nr + 1)) @ '' '' @ message"

text \<open>\<^verbatim>\<open>is_alphanum\<close>. On a character the comparisons are comparisons of strings. On the
  sentinel \<^verbatim>\<open>null\<close> the test \<^verbatim>\<open>c >= '0' && c <= '9'\<close> compares numbers:
  \<^verbatim>\<open>null\<close> converts to \<open>0\<close>, \<^verbatim>\<open>'0'\<close> to \<open>0\<close> and \<^verbatim>\<open>'9'\<close> to \<open>9\<close>, so the test
  holds and the function returns \<^verbatim>\<open>true\<close> for \<^verbatim>\<open>null\<close>.\<close>

definition is_alphanum :: "char option \<Rightarrow> bool" where
  "is_alphanum c =
     (case c of None \<Rightarrow> True
      | Some ch \<Rightarrow>
          (let n = (of_char ch :: nat) in
             (97 \<le> n \<and> n \<le> 122) \<or> (48 \<le> n \<and> n \<le> 57) \<or> (65 \<le> n \<and> n \<le> 90)
             \<or> ch = CHR ''_'' \<or> ch = CHR ''$'' \<or> ch = CHR ''.''))"

text \<open>\<^verbatim>\<open>emit\<close> pushes a non-empty string; a falsy argument pushes nothing.\<close>

definition emit :: "string \<Rightarrow> state \<Rightarrow> state" where
  "emit s st = (if s = [] then st else st\<lparr>outputs := outputs st @ [s]\<rparr>)"

definition emit_char :: "char option \<Rightarrow> state \<Rightarrow> state" where
  "emit_char c st = (case c of None \<Rightarrow> st | Some ch \<Rightarrow> emit [ch] st)"

text \<open>\<^verbatim>\<open>lines[line_nr]\<close>: \<^verbatim>\<open>undefined\<close> outside the array.\<close>

definition lines_at :: "string list \<Rightarrow> int \<Rightarrow> string option" where
  "lines_at ls n = (if 0 \<le> n \<and> nat n < length ls then Some (ls ! nat n) else None)"

text \<open>The part of \<^verbatim>\<open>get\<close> that takes a character from a line just loaded or
  still held: an empty line gives the line feed and drops the line.\<close>

definition take_char :: "string option \<Rightarrow> state \<Rightarrow> char option \<times> state" where
  "take_char l st =
     (case l of
        None \<Rightarrow> (None, st\<lparr>line := None\<rparr>)
      | Some [] \<Rightarrow> (Some NL, st\<lparr>line := None\<rparr>)
      | Some (x # xs) \<Rightarrow> (Some x, st\<lparr>line := Some xs\<rparr>))"

definition get :: "bool \<Rightarrow> state \<Rightarrow> char option \<times> state" where
  "get echo st =
     (case (case preview st of
              Some p \<Rightarrow> (Some p, st\<lparr>preview := None\<rparr>)
            | None \<Rightarrow>
                (case line st of
                   Some (x # xs) \<Rightarrow> (Some x, st\<lparr>line := Some xs\<rparr>)
                 | Some [] \<Rightarrow> (Some NL, st\<lparr>line := None\<rparr>)
                 | None \<Rightarrow>
                     take_char (lines_at (lines st) (line_nr st + 1))
                       (st\<lparr>line_nr := line_nr st + 1\<rparr>)))
      of (c, st1) \<Rightarrow> (c, if echo then emit_char c st1 else st1))"

definition peek :: "state \<Rightarrow> char option \<times> state" where
  "peek st =
     (case preview st of
        Some p \<Rightarrow> (Some p, st)
      | None \<Rightarrow> (case get False st of (c, st1) \<Rightarrow> (c, st1\<lparr>preview := c\<rparr>)))"

definition unget :: "char option \<Rightarrow> state \<Rightarrow> state" where
  "unget c st = st\<lparr>preview := c\<rparr>"

text \<open>\<^verbatim>\<open>peek() === a\<close> and \<^verbatim>\<open>peek() === a || peek() === b\<close>, with the state
  after the calls made.\<close>

definition peek_is :: "char \<Rightarrow> state \<Rightarrow> bool \<times> state" where
  "peek_is a st = (case peek st of (p, st1) \<Rightarrow> (p = Some a, st1))"

definition peek_is2 :: "char \<Rightarrow> char \<Rightarrow> state \<Rightarrow> bool \<times> state" where
  "peek_is2 a b st =
     (case peek st of (p, st1) \<Rightarrow>
        if p = Some a then (True, st1)
        else (case peek st1 of (q, st2) \<Rightarrow> (q = Some b, st2)))"

text \<open>The number of characters the stream can still deliver: the measure of every loop.\<close>

definition remaining :: "state \<Rightarrow> nat" where
  "remaining st =
     (case preview st of None \<Rightarrow> 0 | Some _ \<Rightarrow> 1)
     + (case line st of None \<Rightarrow> 0 | Some l \<Rightarrow> Suc (length l))
     + sum_list (map (\<lambda>l. Suc (length l)) (drop (nat (line_nr st + 1)) (lines st)))"

lemma emit_fields [simp]:
  "lines (emit s st) = lines st" "line (emit s st) = line st"
  "line_nr (emit s st) = line_nr st" "preview (emit s st) = preview st"
  by (simp_all add: emit_def)

lemma emit_char_fields [simp]:
  "lines (emit_char c st) = lines st" "line (emit_char c st) = line st"
  "line_nr (emit_char c st) = line_nr st" "preview (emit_char c st) = preview st"
  by (simp_all add: emit_char_def split: option.splits)

lemma remaining_emit [simp]: "remaining (emit s st) = remaining st"
  by (simp add: remaining_def)

lemma remaining_emit_char [simp]: "remaining (emit_char c st) = remaining st"
  by (simp add: remaining_def)

lemma get_echo:
  "get e st = (c, st') \<Longrightarrow>
     \<exists>st1. get False st = (c, st1) \<and> st' = (if e then emit_char c st1 else st1)"
  by (auto simp: get_def split: prod.splits)

lemma drop_step: "n < length xs \<Longrightarrow> drop n xs = xs ! n # drop (Suc n) xs"
  by (simp add: Cons_nth_drop_Suc)

lemma remaining_get_False_Some:
  assumes "get False st = (Some c, st')"
  shows "Suc (remaining st') = remaining st"
proof (cases "preview st")
  case (Some p)
  with assms show ?thesis
    by (auto simp: get_def remaining_def split: if_splits)
next
  case None
  show ?thesis
  proof (cases "line st")
    case (Some l)
    with None assms show ?thesis
      by (cases l) (auto simp: get_def remaining_def split: if_splits)
  next
    case nl: None
    let ?n = "line_nr st + 1"
    show ?thesis
    proof (cases "lines_at (lines st) ?n")
      case None
      with nl \<open>preview st = None\<close> assms show ?thesis
        by (auto simp: get_def take_char_def split: if_splits)
    next
      case (Some l)
      then have n: "0 \<le> ?n" "nat ?n < length (lines st)" and l: "l = lines st ! nat ?n"
        by (auto simp: lines_at_def split: if_splits)
      have d: "drop (nat ?n) (lines st) = l # drop (nat (?n + 1)) (lines st)"
        using drop_step [OF n(2)] n(1) l by (simp add: nat_add_distrib Suc_nat_eq_nat_zadd1)
      from Some nl \<open>preview st = None\<close> assms d show ?thesis
        by (cases l) (auto simp: get_def take_char_def remaining_def split: if_splits)
    qed
  qed
qed

lemma remaining_get_False_None:
  assumes "get False st = (None, st')"
  shows "remaining st' = remaining st"
proof -
  have "line_nr st + 1 < 0 \<or> length (lines st) \<le> nat (line_nr st + 1)"
    using assms
    by (auto simp: get_def take_char_def lines_at_def
             split: option.splits list.splits if_splits)
  then have "drop (nat (line_nr st + 1 + 1)) (lines st) = drop (nat (line_nr st + 1)) (lines st)"
    by auto
  with assms show ?thesis
    by (auto simp: get_def take_char_def remaining_def lines_at_def
             split: option.splits list.splits if_splits)
qed

lemma remaining_get_Some:
  assumes "get e st = (Some c, st')"
  shows "remaining st' < remaining st"
proof -
  from get_echo [OF assms] obtain st1 where
    "get False st = (Some c, st1)" "st' = (if e then emit_char (Some c) st1 else st1)"
    by blast
  with remaining_get_False_Some [of st c st1] show ?thesis by auto
qed

lemma remaining_get_le:
  assumes "get e st = (c, st')"
  shows "remaining st' \<le> remaining st"
proof -
  from get_echo [OF assms] obtain st1 where
    g: "get False st = (c, st1)" and s: "st' = (if e then emit_char c st1 else st1)"
    by blast
  have "remaining st1 \<le> remaining st"
    using g remaining_get_False_Some [of st _ st1] remaining_get_False_None [of st st1]
    by (cases c) auto
  with s show ?thesis by auto
qed

lemma get_False_preview: "get False st = (c, st') \<Longrightarrow> preview st' = None"
  by (auto simp: get_def take_char_def split: option.splits list.splits)

lemma remaining_set_preview:
  "preview st = None \<Longrightarrow>
   remaining (st\<lparr>preview := c\<rparr>) = (case c of None \<Rightarrow> 0 | Some _ \<Rightarrow> 1) + remaining st"
  by (simp add: remaining_def)

lemma remaining_peek:
  assumes "peek st = (c, st')"
  shows "remaining st' = remaining st"
proof (cases "preview st")
  case (Some p)
  with assms show ?thesis by (simp add: peek_def)
next
  case None
  obtain d st1 where g: "get False st = (d, st1)" by (cases "get False st")
  with None assms have c: "c = d" and s: "st' = st1\<lparr>preview := d\<rparr>"
    by (auto simp: peek_def)
  from get_False_preview [OF g] have "remaining st' = (case d of None \<Rightarrow> 0 | Some _ \<Rightarrow> 1) + remaining st1"
    unfolding s by (rule remaining_set_preview)
  with g remaining_get_False_Some [of st _ st1] remaining_get_False_None [of st st1]
  show ?thesis by (cases d) auto
qed

lemma remaining_peek_is: "peek_is a st = (b, st') \<Longrightarrow> remaining st' = remaining st"
  by (auto simp: peek_is_def split: prod.splits dest: remaining_peek)

lemma remaining_peek_is2: "peek_is2 a b st = (r, st') \<Longrightarrow> remaining st' = remaining st"
  by (auto simp: peek_is2_def split: prod.splits if_splits dest!: remaining_peek)

lemma remaining_get:
  "get e st = (c, st') \<Longrightarrow>
     remaining st' \<le> remaining st \<and> (c \<noteq> None \<longrightarrow> remaining st' < remaining st)"
  using remaining_get_Some [of e st _ st'] remaining_get_le [of e st c st'] by (cases c) auto

lemmas remaining_rules =
  remaining_get [OF sym] remaining_peek [OF sym]
  remaining_peek_is [OF sym] remaining_peek_is2 [OF sym]

section \<open>The literal skippers\<close>

text \<open>\<^verbatim>\<open>string\<close>: the loop, with the saved line number \<^verbatim>\<open>was\<close> as a parameter.\<close>

function string_loop :: "char \<Rightarrow> bool \<Rightarrow> int \<Rightarrow> state \<Rightarrow> string + state" where
  "string_loop quote in_comment was st =
     (case get True st of (c, st1) \<Rightarrow>
        if c = Some quote then Inr st1
        else
          (case (if c = Some BSL then get True st1 else (c, st1)) of (c2, st2) \<Rightarrow>
             (case (if in_comment \<and> c2 = Some CHR ''*'' then peek_is CHR ''/'' st2
                    else (False, st2)) of (hit, st3) \<Rightarrow>
                if hit then Inl (error (line_nr st3) ''unexpected close comment in string.'')
                else if c2 = None then Inl (error was ''unterminated string literal.'')
                else string_loop quote in_comment was st3)))"
  by pat_completeness auto
termination
proof (relation "measure (\<lambda>(q, ic, w, st). remaining st)", goal_cases)
  case 1
  show ?case by simp
next
  case 2
  then show ?case
    by (auto split: if_splits dest!: remaining_rules)
qed


declare string_loop.simps [simp del]

definition string :: "char \<Rightarrow> bool \<Rightarrow> state \<Rightarrow> string + state" where
  "string quote in_comment st = string_loop quote in_comment (line_nr st) st"

definition pre_regexp :: "char option \<Rightarrow> bool" where
  "pre_regexp left =
     (left = Some CHR ''('' \<or> left = Some CHR '','' \<or> left = Some CHR ''='' \<or> left = Some CHR '':'' \<or>
      left = Some CHR ''['' \<or> left = Some CHR ''!'' \<or> left = Some CHR ''&'' \<or> left = Some CHR ''|'' \<or>
      left = Some CHR ''?'' \<or> left = Some CHR ''{'' \<or> left = Some CHR ''}'' \<or> left = Some CHR '';'')"

text \<open>What one pass through a loop body leads to: a throw, a return, or the next
  iteration with the loop's variables.\<close>

datatype 'a flow = Throw string | Return state | Next 'a

text \<open>The inner loop of \<^verbatim>\<open>regexp\<close>, over a bracketed set; it ends by \<^verbatim>\<open>break\<close>
  with \<^verbatim>\<open>c === ']'\<close>.\<close>

function regexp_set :: "bool \<Rightarrow> state \<Rightarrow> string + state" where
  "regexp_set in_comment st =
     (case get True st of (c, st1) \<Rightarrow>
        if c = Some CHR '']'' then Inr st1
        else
          (case (if c = Some BSL then get True st1 else (c, st1)) of (c2, st2) \<Rightarrow>
             (case (if in_comment \<and> c2 = Some CHR ''*'' then peek_is CHR ''/'' st2
                    else (False, st2)) of (hit, st3) \<Rightarrow>
                if hit then Inl (error (line_nr st3) ''unexpected close comment in regexp.'')
                else if c2 = None
                then Inl (error (line_nr st3) ''unterminated set in Regular Expression literal.'')
                else regexp_set in_comment st3)))"
  by pat_completeness auto
termination
proof (relation "measure (\<lambda>(ic, st). remaining st)", goal_cases)
  case 1
  show ?case by simp
next
  case 2
  then show ?case
    by (auto split: if_splits dest!: remaining_rules)
qed

declare regexp_set.simps [simp del]

lemma string_loop_remaining:
  "string_loop q ic w st = Inr st' \<Longrightarrow> remaining st' < remaining st"
proof (induction "remaining st" arbitrary: st ic rule: less_induct)
  case less
  have IH: "\<And>s ic. string_loop q ic w s = Inr st' \<Longrightarrow> remaining s < remaining st
              \<Longrightarrow> remaining st' < remaining st"
    using less.hyps by (meson less_trans)
  from less.prems show ?case
    by (subst (asm) string_loop.simps)
       (auto split: prod.splits if_splits dest!: remaining_get remaining_peek_is dest: IH)
qed

lemma regexp_set_remaining:
  "regexp_set ic st = Inr st' \<Longrightarrow> remaining st' < remaining st"
proof (induction "remaining st" arbitrary: st ic rule: less_induct)
  case less
  have IH: "\<And>s ic. regexp_set ic s = Inr st' \<Longrightarrow> remaining s < remaining st
              \<Longrightarrow> remaining st' < remaining st"
    using less.hyps by (meson less_trans)
  from less.prems show ?case
    by (subst (asm) regexp_set.simps)
       (auto split: prod.splits if_splits dest!: remaining_get remaining_peek_is dest: IH)
qed

text \<open>The \<^verbatim>\<open>if\<close> chain of the outer loop of \<^verbatim>\<open>regexp\<close>: it returns at the closing
  slash, or goes on to the two checks after the chain with the character it holds.\<close>

definition regexp_chain :: "bool \<Rightarrow> char option \<Rightarrow> state \<Rightarrow> (char option \<times> state) flow" where
  "regexp_chain in_comment c st1 =
     (if c = Some CHR ''['' then
        (case regexp_set in_comment st1 of
           Inl e \<Rightarrow> Throw e
         | Inr st2 \<Rightarrow> Next (Some CHR '']'', st2))
      else if c = Some BSL then Next (get True st1)
      else if c = Some CHR ''/'' then
        (case (if in_comment then peek_is2 CHR ''/'' CHR ''*'' st1 else (False, st1)) of
           (hit, st2) \<Rightarrow>
             if hit then Throw (error (line_nr st2) ''unexpected comment.'') else Return st2)
      else Next (c, st1))"

function regexp_loop :: "bool \<Rightarrow> int \<Rightarrow> state \<Rightarrow> string + state" where
  "regexp_loop in_comment was st =
     (case get True st of (c, st1) \<Rightarrow>
        (case regexp_chain in_comment c st1 of
           Throw e \<Rightarrow> Inl e
         | Return st2 \<Rightarrow> Inr st2
         | Next (c2, st2) \<Rightarrow>
             (case (if in_comment \<and> c2 = Some CHR ''*'' then peek_is CHR ''/'' st2
                    else (False, st2)) of (hit, st3) \<Rightarrow>
                if hit then Inl (error (line_nr st3) ''unexpected comment.'')
                else if c2 = None then Inl (error was ''unterminated regexp literal.'')
                else regexp_loop in_comment was st3)))"
  by pat_completeness auto

termination
proof (relation "measure (\<lambda>(ic, w, st). remaining st)", goal_cases)
  case 1
  show ?case by simp
next
  case 2
  then show ?case
    by (auto simp: regexp_chain_def split: if_splits sum.splits prod.splits
             dest!: remaining_rules remaining_get regexp_set_remaining)
qed

declare regexp_loop.simps [simp del]

definition regexp :: "bool \<Rightarrow> state \<Rightarrow> string + state" where
  "regexp in_comment st = regexp_loop in_comment (line_nr st) st"


lemma regexp_loop_remaining:
  "regexp_loop ic w st = Inr st' \<Longrightarrow> remaining st' < remaining st"
proof (induction "remaining st" arbitrary: st ic rule: less_induct)
  case less
  have IH: "\<And>s ic. regexp_loop ic w s = Inr st' \<Longrightarrow> remaining s < remaining st
              \<Longrightarrow> remaining st' < remaining st"
    using less.hyps by (meson less_trans)
  from less.prems show ?case
    by (subst (asm) regexp_loop.simps)
       (auto simp: regexp_chain_def
             split: prod.splits if_splits sum.splits flow.splits
             dest!: remaining_get remaining_peek_is remaining_peek_is2 regexp_set_remaining
             dest: IH)
qed

lemma string_remaining: "string q ic st = Inr st' \<Longrightarrow> remaining st' < remaining st"
  unfolding string_def by (rule string_loop_remaining)

lemma regexp_remaining: "regexp ic st = Inr st' \<Longrightarrow> remaining st' < remaining st"
  unfolding regexp_def by (rule regexp_loop_remaining)

section \<open>The pattern extractors\<close>

definition is_quote :: "char option \<Rightarrow> bool" where
  "is_quote c = (c = Some SQ \<or> c = Some DQ \<or> c = Some BQ)"

definition is_open :: "char option \<Rightarrow> bool" where
  "is_open c = (c = Some CHR ''('' \<or> c = Some CHR ''{'' \<or> c = Some CHR ''['')"

definition is_close :: "char option \<Rightarrow> bool" where
  "is_close c = (c = Some CHR '')'' \<or> c = Some CHR ''}'' \<or> c = Some CHR '']'')"

text \<open>\<^verbatim>\<open>c > ' '\<close>: false for \<^verbatim>\<open>null\<close>.\<close>

definition gt_space :: "char option \<Rightarrow> bool" where
  "gt_space c = (case c of None \<Rightarrow> False | Some ch \<Rightarrow> (32::nat) < of_char ch)"

text \<open>The \<^verbatim>\<open>if\<close> chain of the loop of \<^verbatim>\<open>condition\<close>, after \<^verbatim>\<open>c = get(true)\<close>.\<close>

definition condition_chain ::
  "char option \<Rightarrow> int \<Rightarrow> char option \<Rightarrow> state \<Rightarrow> (int \<times> state) flow" where
  "condition_chain left paren c st1 =
     (if is_open c then Next (paren + 1, st1)
      else if is_close c then
        (if paren - 1 = 0 then Return st1 else Next (paren - 1, st1))
      else if c = None then Throw (error (line_nr st1) ''Unterminated condition.'')
      else if is_quote c then
        (case string (the c) True st1 of
           Inl e \<Rightarrow> Throw e
         | Inr st2 \<Rightarrow> Next (paren, st2))
      else if c = Some CHR ''/'' then
        (case peek_is2 CHR ''/'' CHR ''*'' st1 of (hit, st2) \<Rightarrow>
           if hit then Throw (error (line_nr st2) ''unexpected comment.'')
           else if pre_regexp left then
             (case regexp True st2 of
                Inl e \<Rightarrow> Throw e
              | Inr st3 \<Rightarrow> Next (paren, st3))
           else Next (paren, st2))
      else if c = Some CHR ''*'' then
        (case peek_is CHR ''/'' st1 of (hit, st2) \<Rightarrow>
           if hit then Throw (error (line_nr st2) ''unclosed condition.'')
           else Next (paren, st2))
      else Next (paren, st1))"

lemma condition_chain_Return:
  "condition_chain left paren c st1 = Return st2 \<Longrightarrow> st2 = st1 \<and> c \<noteq> None"
  by (auto simp: condition_chain_def is_open_def is_close_def
           split: if_splits sum.splits prod.splits)

lemma condition_chain_remaining:
  "condition_chain left paren c st1 = Next (p, st2) \<Longrightarrow>
     remaining st2 \<le> remaining st1 \<and> c \<noteq> None"
  by (auto simp: condition_chain_def is_open_def is_close_def
           split: if_splits sum.splits prod.splits
           dest!: remaining_peek_is remaining_peek_is2 string_remaining regexp_remaining)

function condition_loop :: "char option \<Rightarrow> int \<Rightarrow> state \<Rightarrow> string + state" where
  "condition_loop left paren st =
     (case get True st of (c, st1) \<Rightarrow>
        (case condition_chain left paren c st1 of
           Throw e \<Rightarrow> Inl e
         | Return st2 \<Rightarrow> Inr st2
         | Next (paren2, st2) \<Rightarrow>
             condition_loop (if gt_space c then c else left) paren2 st2))"
  by pat_completeness auto
termination
proof (relation "measure (\<lambda>(l, p, st). remaining st)", goal_cases)
  case 1
  show ?case by simp
next
  case 2
  then show ?case
    by (auto dest!: remaining_rules condition_chain_remaining)
qed

declare condition_loop.simps [simp del]

definition condition :: "state \<Rightarrow> string + state" where
  "condition st = condition_loop (Some CHR ''{'') 0 st"

lemma peek_preview: "peek st = (Some c, st1) \<Longrightarrow> preview st1 = Some c"
  by (auto simp: peek_def split: option.splits prod.splits)

lemma peek_is_True_get:
  assumes "peek_is a st = (True, st1)"
  shows "remaining (snd (get e st1)) < remaining st"
proof -
  from assms have p: "peek st = (Some a, st1)"
    by (auto simp: peek_is_def split: prod.splits)
  have "remaining (snd (get e st1)) < remaining st1"
    using peek_preview [OF p] remaining_get_Some [of e st1 a "snd (get e st1)"]
    by (auto simp: get_def)
  with remaining_peek [OF p] show ?thesis by simp
qed

lemma peek_is_True_get2:
  "peek_is a st = (True, st1) \<Longrightarrow> get e st1 = (c, st2) \<Longrightarrow> remaining st2 < remaining st"
  using peek_is_True_get [of a st st1 e] by simp

text \<open>\<^verbatim>\<open>stuff\<close>: the loop that drops leading spaces.\<close>

function skip_spaces :: "state \<Rightarrow> state" where
  "skip_spaces st =
     (case peek_is CHR '' '' st of (hit, st1) \<Rightarrow>
        if hit then skip_spaces (snd (get False st1)) else st1)"
  by pat_completeness auto

termination
proof (relation "measure remaining", goal_cases)
  case 1
  show ?case by simp
next
  case 2
  then show ?case
    by (auto dest!: peek_is_True_get [OF sym])
qed

declare skip_spaces.simps [simp del]

text \<open>The loop over \<^verbatim>\<open>*\<close> at the head of the loop of \<^verbatim>\<open>stuff\<close>: it returns at
  \<^verbatim>\<open>*/\<close>, emits a \<^verbatim>\<open>*\<close> that no \<^verbatim>\<open>/\<close> follows, and ends when the next
  character is not \<^verbatim>\<open>*\<close>.\<close>

function stuff_stars :: "int \<Rightarrow> state \<Rightarrow> state flow" where
  "stuff_stars paren st =
     (case peek_is CHR ''*'' st of (star, st1) \<Rightarrow>
        if star then
          (case get False st1 of (c1, st2) \<Rightarrow>
             (case peek_is CHR ''/'' st2 of (slash, st3) \<Rightarrow>
                if slash then
                  (case get False st3 of (c2, st4) \<Rightarrow>
                     if 0 < paren then Throw (error (line_nr st4) ''Unbalanced stuff'')
                     else Return st4)
                else stuff_stars paren (emit ''*'' st3)))
        else Next st1)"
  by pat_completeness auto
termination
proof (relation "measure (\<lambda>(p, st). remaining st)", goal_cases)
  case 1
  show ?case by simp
next
  case prems: 2
  from prems(1,2) peek_is_True_get2 [OF _ prems(3) [symmetric]]
    remaining_peek_is [OF prems(4) [symmetric]]
  show ?case by (cases rule: prod.exhaust) auto
qed

declare stuff_stars.simps [simp del]

text \<open>The \<^verbatim>\<open>if\<close> chain of the loop of \<^verbatim>\<open>stuff\<close>, after \<^verbatim>\<open>c = get(true)\<close>.\<close>

definition stuff_chain ::
  "char option \<Rightarrow> int \<Rightarrow> char option \<Rightarrow> state \<Rightarrow> (int \<times> state) flow" where
  "stuff_chain left paren c st1 =
     (if c = None then Throw (error (line_nr st1) ''Unterminated stuff.'')
      else if is_quote c then
        (case string (the c) True st1 of
           Inl e \<Rightarrow> Throw e
         | Inr st2 \<Rightarrow> Next (paren, st2))
      else if is_open c then Next (paren + 1, st1)
      else if is_close c then
        (if paren - 1 < 0 then Throw (error (line_nr st1) ''Unbalanced stuff'')
         else Next (paren - 1, st1))
      else if c = Some CHR ''/'' then
        (case peek_is2 CHR ''/'' CHR ''*'' st1 of (hit, st2) \<Rightarrow>
           if hit then Throw (error (line_nr st2) ''unexpected comment.'')
           else if pre_regexp left then
             (case regexp True st2 of
                Inl e \<Rightarrow> Throw e
              | Inr st3 \<Rightarrow> Next (paren, st3))
           else Next (paren, st2))
      else Next (paren, st1))"

lemma stuff_chain_Return: "stuff_chain left paren c st1 \<noteq> Return st2"
  by (auto simp: stuff_chain_def split: if_splits sum.splits prod.splits)

lemma stuff_chain_remaining:
  "stuff_chain left paren c st1 = Next (p, st2) \<Longrightarrow>
     remaining st2 \<le> remaining st1 \<and> c \<noteq> None"
  by (auto simp: stuff_chain_def
           split: if_splits sum.splits prod.splits
           dest!: remaining_peek_is2 string_remaining regexp_remaining)

lemma stuff_stars_remaining:
  "stuff_stars p st = r \<Longrightarrow> r = Next st' \<or> r = Return st' \<Longrightarrow> remaining st' \<le> remaining st"
proof (induction "remaining st" arbitrary: st rule: less_induct)
  case less
  obtain star st1 where a: "peek_is CHR ''*'' st = (star, st1)" by force
  obtain c1 st2 where b: "get False st1 = (c1, st2)" by force
  obtain slash st3 where c: "peek_is CHR ''/'' st2 = (slash, st3)" by force
  obtain c2 st4 where d: "get False st3 = (c2, st4)" by force
  note r = remaining_peek_is [OF a] remaining_peek_is [OF c] remaining_get_le [OF d]
  show ?case
  proof (cases star)
    case False
    with less.prems a r show ?thesis
      by (subst (asm) stuff_stars.simps) auto
  next
    case True
    with a b have lt: "remaining st2 < remaining st"
      using peek_is_True_get2 [of _ st st1 False c1 st2] by simp
    show ?thesis
    proof (cases slash)
      case slash: True
      with less.prems a b c d True r lt show ?thesis
        by (subst (asm) stuff_stars.simps) (auto split: if_splits)
    next
      case slash: False
      from less.prems a b c True slash
      have "stuff_stars p (emit ''*'' st3) = r"
        by (subst (asm) stuff_stars.simps) auto
      from less.hyps [OF _ this less.prems(2)] r lt show ?thesis by simp
    qed
  qed
qed

lemma stuff_stars_Next: "stuff_stars p st = Next st' \<Longrightarrow> remaining st' \<le> remaining st"
  by (rule stuff_stars_remaining [OF _ disjI1]) auto

lemma stuff_stars_Return: "stuff_stars p st = Return st' \<Longrightarrow> remaining st' \<le> remaining st"
  by (rule stuff_stars_remaining [OF _ disjI2]) auto

function stuff_loop :: "char option \<Rightarrow> int \<Rightarrow> state \<Rightarrow> string + state" where
  "stuff_loop left paren st =
     (case stuff_stars paren st of
        Throw e \<Rightarrow> Inl e
      | Return st1 \<Rightarrow> Inr st1
      | Next st1 \<Rightarrow>
          (case get True st1 of (c, st2) \<Rightarrow>
             (case stuff_chain left paren c st2 of
                Throw e \<Rightarrow> Inl e
              | Return st3 \<Rightarrow> Inr st3
              | Next (paren2, st3) \<Rightarrow>
                  stuff_loop (if gt_space c then c else left) paren2 st3)))"
  by pat_completeness auto
termination
proof (relation "measure (\<lambda>(l, p, st). remaining st)", goal_cases)
  case 1
  show ?case by simp
next
  case 2
  then show ?case
    by (auto dest!: remaining_rules stuff_chain_remaining stuff_stars_Next)
qed

declare stuff_loop.simps [simp del]

definition stuff :: "state \<Rightarrow> string + state" where
  "stuff st = stuff_loop (Some CHR ''{'') 0 (skip_spaces st)"


lemma condition_loop_remaining:
  "condition_loop l p st = Inr st' \<Longrightarrow> remaining st' < remaining st"
proof (induction "remaining st" arbitrary: st l p rule: less_induct)
  case less
  obtain c st1 where g: "get True st = (c, st1)" by force
  note r = remaining_get [OF g]
  show ?case
  proof (cases "condition_chain l p c st1")
    case (Throw e)
    with less.prems g show ?thesis
      by (subst (asm) condition_loop.simps) simp
  next
    case (Return st2)
    with less.prems g r condition_chain_Return [OF Return] show ?thesis
      by (subst (asm) condition_loop.simps) auto
  next
    case (Next x)
    obtain p2 st2 where x: "x = (p2, st2)" by force
    from condition_chain_remaining [OF Next [unfolded x]] r
    have lt: "remaining st2 < remaining st" by auto
    from less.prems g Next x
    have "condition_loop (if gt_space c then c else l) p2 st2 = Inr st'"
      by (subst (asm) condition_loop.simps) simp
    from less.hyps [OF lt this] lt show ?thesis by simp
  qed
qed

lemma condition_remaining: "condition st = Inr st' \<Longrightarrow> remaining st' < remaining st"
  unfolding condition_def by (rule condition_loop_remaining)

lemma stuff_loop_remaining:
  "stuff_loop l p st = Inr st' \<Longrightarrow> remaining st' \<le> remaining st"
proof (induction "remaining st" arbitrary: st l p rule: less_induct)
  case less
  show ?case
  proof (cases "stuff_stars p st")
    case (Throw e)
    with less.prems show ?thesis
      by (subst (asm) stuff_loop.simps) simp
  next
    case (Return st1)
    with less.prems stuff_stars_Return [OF Return] show ?thesis
      by (subst (asm) stuff_loop.simps) simp
  next
    case (Next st1)
    note r1 = stuff_stars_Next [OF Next]
    obtain c st2 where g: "get True st1 = (c, st2)" by force
    note r2 = remaining_get [OF g]
    show ?thesis
    proof (cases "stuff_chain l p c st2")
      case (Throw e)
      with less.prems Next g show ?thesis
        by (subst (asm) stuff_loop.simps) simp
    next
      case (Return st3)
      with stuff_chain_Return show ?thesis by blast
    next
      case n: (Next x)
      obtain p2 st3 where x: "x = (p2, st3)" by force
      from stuff_chain_remaining [OF n [unfolded x]] r1 r2
      have lt: "remaining st3 < remaining st" by auto
      from less.prems g Next n x
      have "stuff_loop (if gt_space c then c else l) p2 st3 = Inr st'"
        by (subst (asm) stuff_loop.simps) simp
      from less.hyps [OF lt this] lt show ?thesis by simp
    qed
  qed
qed

lemma remaining_skip_spaces: "remaining (skip_spaces st) \<le> remaining st"
proof (induction "remaining st" arbitrary: st rule: less_induct)
  case less
  obtain hit st1 where a: "peek_is CHR '' '' st = (hit, st1)" by force
  show ?case
  proof (cases hit)
    case False
    with a remaining_peek_is [OF a] show ?thesis
      by (subst skip_spaces.simps) simp
  next
    case True
    with a have lt: "remaining (snd (get False st1)) < remaining st"
      using peek_is_True_get [of _ st st1 False] by simp
    from less.hyps [OF lt] lt a True show ?thesis
      by (subst skip_spaces.simps) simp
  qed
qed

lemma stuff_remaining:
  assumes "stuff st = Inr st'"
  shows "remaining st' \<le> remaining st"
proof -
  from assms have "remaining st' \<le> remaining (skip_spaces st)"
    unfolding stuff_def by (rule stuff_loop_remaining)
  with remaining_skip_spaces [of st] show ?thesis by simp
qed

section \<open>The expander\<close>

text \<open>\<^verbatim>\<open>methods[tag_nr]\<close> when it is truthy: a non-empty method name.\<close>

definition method_at :: "string option list \<Rightarrow> int \<Rightarrow> string option" where
  "method_at methods tag_nr =
     (if 0 \<le> tag_nr \<and> nat tag_nr < length methods then
        (case methods ! nat tag_nr of
           None \<Rightarrow> None
         | Some m \<Rightarrow> if m = [] then None else Some m)
      else None)"

definition expand :: "string option list \<Rightarrow> int \<Rightarrow> state \<Rightarrow> string + state" where
  "expand methods tag_nr st =
     (case peek st of (c, st1) \<Rightarrow>
        (case (if c = Some CHR ''('' then
                 (case condition (emit ''if '' st1) of
                    Inl e \<Rightarrow> Inl e
                  | Inr st2 \<Rightarrow> Inr (emit '' '' st2))
               else Inr st1) of
           Inl e \<Rightarrow> Inl e
         | Inr st3 \<Rightarrow>
             (case method_at methods tag_nr of
                Some m \<Rightarrow>
                  (case stuff (emit (m @ ''('') (emit ''{'' st3)) of
                     Inl e \<Rightarrow> Inl e
                   | Inr st4 \<Rightarrow> Inr (emit '');}'' st4))
              | None \<Rightarrow>
                  (case stuff (emit ''{'' st3) of
                     Inl e \<Rightarrow> Inl e
                   | Inr st4 \<Rightarrow> Inr (emit ''}'' st4)))))"

lemma expand_remaining:
  assumes "expand methods i st = Inr st'"
  shows "remaining st' \<le> remaining st"
proof -
  obtain c st1 where p: "peek st = (c, st1)" by force
  note r = remaining_peek [OF p]
  obtain st3 where c: "(if c = Some CHR ''('' then
                 (case condition (emit ''if '' st1) of
                    Inl e \<Rightarrow> Inl e
                  | Inr st2 \<Rightarrow> Inr (emit '' '' st2))
               else Inr st1) = Inr st3"
    using assms p by (auto simp: expand_def split: sum.splits)
  then have r3: "remaining st3 \<le> remaining st"
    using r by (auto split: if_splits sum.splits dest!: condition_remaining)
  from assms p c show ?thesis
    using r3
    by (auto simp: expand_def split: option.splits sum.splits dest!: stuff_remaining)
qed


section \<open>The dispatcher\<close>

text \<open>The values of the variable \<^verbatim>\<open>c\<close> of \<^verbatim>\<open>process\<close>: \<^verbatim>\<open>null\<close>, a character,
  or the number \<^verbatim>\<open>0\<close> that is assigned after a string literal. The number is not
  emitted (it is falsy), is not greater than a space, and equals no character.\<close>

datatype cur = Eof | Ch char | Zero

definition of_get :: "char option \<Rightarrow> cur" where
  "of_get c = (case c of None \<Rightarrow> Eof | Some ch \<Rightarrow> Ch ch)"

definition cur_char :: "cur \<Rightarrow> char option" where
  "cur_char c = (case c of Ch ch \<Rightarrow> Some ch | _ \<Rightarrow> None)"

text \<open>The loop that echoes a \<^verbatim>\<open>//\<close> comment to the end of the line.\<close>

function line_comment :: "state \<Rightarrow> state" where
  "line_comment st =
     (case get True st of (c, st1) \<Rightarrow>
        if c = Some NL \<or> c = Some CR \<or> c = None then st1 else line_comment st1)"
  by pat_completeness auto
termination
proof (relation "measure remaining", goal_cases)
  case 1
  show ?case by simp
next
  case 2
  then show ?case
    by (auto dest!: remaining_rules)
qed

declare line_comment.simps [simp del]

text \<open>The loop that collects the candidate tag; it returns the tag, the character that
  ended it and the state. \<^verbatim>\<open>is_alphanum\<close> accepts the sentinel, and
  \<^verbatim>\<open>tag += c\<close> then appends the text \<^verbatim>\<open>null\<close>: once \<^verbatim>\<open>get\<close> has nothing more to
  give, the loop does not end. Not returning is the value \<^const>\<open>None\<close>.\<close>

partial_function (option) read_tag ::
  "string \<Rightarrow> state \<Rightarrow> (string \<times> char option \<times> state) option" where
  "read_tag tag st =
     (case get False st of (c, st1) \<Rightarrow>
        if \<not> is_alphanum c then Some (tag, c, st1)
        else read_tag (tag @ (case c of None \<Rightarrow> ''null'' | Some ch \<Rightarrow> [ch])) st1)"

text \<open>The loop that echoes a comment whose tag did not match, entered with the
  character that ended the tag.\<close>

function comment_loop :: "char option \<Rightarrow> state \<Rightarrow> string + state" where
  "comment_loop c st =
     (if c = None then Inl (error (line_nr st) ''unterminated comment.'')
      else if c = Some CHR ''/'' then
        (case get True st of (c1, st1) \<Rightarrow>
           if c1 = Some CHR ''*'' then Inl (error (line_nr st1) ''nested comment.'')
           else comment_loop c1 st1)
      else if c = Some CHR ''*'' then
        (case get True st of (c1, st1) \<Rightarrow>
           if c1 = Some CHR ''/'' then Inr st1 else comment_loop c1 st1)
      else (case get True st of (c1, st1) \<Rightarrow> comment_loop c1 st1))"
  by pat_completeness auto
termination
proof (relation "measure (\<lambda>(c, st). remaining st + (if c = None then 0 else 1))", goal_cases)
  case 1
  show ?case by simp
next
  case 2
  then show ?case by (auto split: prod.splits dest!: remaining_get)
next
  case 3
  then show ?case by (auto split: prod.splits dest!: remaining_get)
next
  case 4
  then show ?case by (auto split: prod.splits dest!: remaining_get)
qed

declare comment_loop.simps [simp del]

text \<open>\<^verbatim>\<open>tags.indexOf(tag)\<close>.\<close>

fun index_from :: "string list \<Rightarrow> string \<Rightarrow> int \<Rightarrow> int" where
  "index_from [] x i = - 1"
| "index_from (y # ys) x i = (if y = x then i else index_from ys x (i + 1))"

definition index_of :: "string list \<Rightarrow> string \<Rightarrow> int" where
  "index_of tags tag = index_from tags tag 0"

text \<open>One pass through the body of the loop of \<^verbatim>\<open>process\<close>, for a \<^verbatim>\<open>c\<close> that
  is not \<^verbatim>\<open>null\<close>: it gives the next \<^verbatim>\<open>c\<close>, the next \<^verbatim>\<open>left\<close> and the state,
  or \<^const>\<open>None\<close> when the tag loop does not return.
  \<^verbatim>\<open>left\<close> starts as the number \<^verbatim>\<open>0\<close>, which is \<^const>\<open>None\<close> here.\<close>

definition process_step ::
  "string list \<Rightarrow> string option list \<Rightarrow> cur \<Rightarrow> char option \<Rightarrow> state
     \<Rightarrow> ((cur \<times> char option) \<times> state) flow option" where
  "process_step tags methods c left st =
     (if is_quote (cur_char c) then
        (case string (the (cur_char c)) False (emit_char (cur_char c) st) of
           Inl e \<Rightarrow> Some (Throw e)
         | Inr st1 \<Rightarrow> Some (Next ((Zero, left), st1)))
      else if c = Ch CHR ''/'' then
        (case peek_is CHR ''/'' st of (slash, st1) \<Rightarrow>
           if slash then
             (case get False (line_comment (emit ''/'' st1)) of (c2, st2) \<Rightarrow>
                Some (Next ((of_get c2, left), st2)))
           else
             (case peek_is CHR ''*'' st1 of (star, st2) \<Rightarrow>
                if star then
                  (case get False st2 of (c0, st3) \<Rightarrow>
                     (case read_tag [] st3 of
                        None \<Rightarrow> None
                      | Some (tag, c1, st4) \<Rightarrow>
                          (case (if 0 \<le> (if tag = [] then - 1 else index_of tags tag)
                                 then expand methods (index_of tags tag) (unget c1 st4)
                                 else comment_loop c1
                                        (emit tag (emit ''/*'' (unget c1 st4)))) of
                             Inl e \<Rightarrow> Some (Throw e)
                           | Inr st5 \<Rightarrow>
                               (case get False st5 of (c2, st6) \<Rightarrow>
                                  Some (Next ((of_get c2, left), st6))))))
                else
                  (case (if pre_regexp left then regexp False (emit ''/'' st2)
                         else Inr (emit ''/'' st2)) of
                     Inl e \<Rightarrow> Some (Throw e)
                   | Inr st3 \<Rightarrow>
                       (case get False st3 of (c2, st4) \<Rightarrow>
                          Some (Next ((of_get c2, Some CHR ''/''), st4))))))
      else
        (case get False (emit_char (cur_char c) st) of (c2, st1) \<Rightarrow>
           Some (Next ((of_get c2, if gt_space (cur_char c) then cur_char c else left), st1))))"

text \<open>What the dispatcher still has to read: the measure of its loop where the tag loop
  returns.\<close>

definition process_measure :: "cur \<Rightarrow> state \<Rightarrow> nat" where
  "process_measure c st =
     (case c of Eof \<Rightarrow> 0 | Zero \<Rightarrow> 2 * remaining st + 2 | Ch _ \<Rightarrow> 2 * remaining st + 3)"

lemma process_measure_get:
  assumes "get e s = (c, s')"
  shows "process_measure (of_get c) s' < 2 * remaining s + 2"
  using remaining_get [OF assms(1)]
  by (cases c) (auto simp: process_measure_def of_get_def)

lemma remaining_line_comment: "remaining (line_comment st) \<le> remaining st"
proof (induction "remaining st" arbitrary: st rule: less_induct)
  case less
  obtain c st1 where g: "get True st = (c, st1)" by force
  note r = remaining_get [OF g]
  show ?case
  proof (cases "c = Some NL \<or> c = Some CR \<or> c = None")
    case True
    with g r show ?thesis by (subst line_comment.simps) auto
  next
    case False
    with r have lt: "remaining st1 < remaining st" by auto
    from less.hyps [OF lt] lt g False show ?thesis
      by (subst line_comment.simps) auto
  qed
qed

lemma comment_loop_None: "comment_loop None st = Inl (error (line_nr st) ''unterminated comment.'')"
  by (subst comment_loop.simps) simp

lemma comment_loop_remaining:
  "comment_loop c st = Inr st' \<Longrightarrow> remaining st' \<le> remaining st"
proof (induction "remaining st" arbitrary: st c rule: less_induct)
  case less
  obtain c1 st1 where g: "get True st = (c1, st1)" by force
  note r = remaining_get [OF g]
  from less.prems g
  have "(c = Some CHR ''*'' \<and> c1 = Some CHR ''/'' \<and> st' = st1) \<or> comment_loop c1 st1 = Inr st'"
    by (subst (asm) comment_loop.simps) (auto split: if_splits)
  then show ?case
  proof
    assume "c = Some CHR ''*'' \<and> c1 = Some CHR ''/'' \<and> st' = st1"
    with r show ?thesis by simp
  next
    assume a: "comment_loop c1 st1 = Inr st'"
    then have "c1 \<noteq> None" using comment_loop_None [of st1] by (cases c1) auto
    with r have lt: "remaining st1 < remaining st" by simp
    from less.hyps [OF lt a] lt show ?thesis by simp
  qed
qed


lemma remaining_unget:
  "preview st = None \<Longrightarrow> remaining (unget c st) \<le> Suc (remaining st)"
  by (cases c) (simp_all add: unget_def remaining_def)

text \<open>The loop of \<^verbatim>\<open>process\<close>: it ends when \<^verbatim>\<open>c\<close> is \<^verbatim>\<open>null\<close>. It does not
  return when the tag loop does not.\<close>

partial_function (option) process_loop ::
  "string list \<Rightarrow> string option list \<Rightarrow> cur \<Rightarrow> char option \<Rightarrow> state
     \<Rightarrow> (string + state) option" where
  "process_loop tags methods c left st =
     (if c = Eof then Some (Inr st)
      else
        (case process_step tags methods c left st of
           None \<Rightarrow> None
         | Some (Throw e) \<Rightarrow> Some (Inl e)
         | Some (Return st1) \<Rightarrow> Some (Inr st1)
         | Some (Next ((c2, left2), st1)) \<Rightarrow> process_loop tags methods c2 left2 st1))"

definition process ::
  "string list \<Rightarrow> string option list \<Rightarrow> state \<Rightarrow> (string + state) option" where
  "process tags methods st =
     (case get False st of (c, st1) \<Rightarrow> process_loop tags methods (of_get c) None st1)"


section \<open>The entry point\<close>

text \<open>The arguments of \<^verbatim>\<open>jsdev\<close>: the source is a string or an array of lines; the
  tags are an array of strings, or anything else; the comments are a string, an array of
  strings, or anything else.\<close>

datatype source_arg = SourceString string | SourceArray "string list"

datatype tags_arg = TagsArray "string list" | NoTags

datatype comments_arg = CommentString string | CommentArray "string list" | NoComments

text \<open>\<^verbatim>\<open>tagx.exec(value)\<close> for the pattern
  \<^verbatim>\<open>/^([0-9A-Za-z_$.]+)(?::([0-9A-Za-z_$.]+))?$/\<close>: the two groups of a match.\<close>

definition tagx_exec :: "string \<Rightarrow> (string \<times> string option) option" where
  "tagx_exec v =
     (let t = takeWhile (\<lambda>ch. is_alphanum (Some ch)) v;
          r = dropWhile (\<lambda>ch. is_alphanum (Some ch)) v
      in if t = [] then None
         else
           (case r of
              [] \<Rightarrow> Some (t, None)
            | ch # m \<Rightarrow>
                if ch = CHR '':'' \<and> m \<noteq> [] \<and> list_all (\<lambda>ch. is_alphanum (Some ch)) m
                then Some (t, Some m) else None))"

text \<open>\<^verbatim>\<open>tags.map\<close> with its callback: the entries already visited (as they now stand
  in the caller's array), the entries still to visit, and the methods collected. The
  result goes with the caller's array as the call leaves it.\<close>

fun tags_map ::
  "int \<Rightarrow> string list \<Rightarrow> string list \<Rightarrow> string option list
     \<Rightarrow> (string + string option list) \<times> string list" where
  "tags_map nr seen [] methods = (Inr methods, seen)"
| "tags_map nr seen (v # vs) methods =
     (case tagx_exec v of
        None \<Rightarrow> (Inl (error nr v), seen @ v # vs)
      | Some (t, m) \<Rightarrow>
          tags_map nr (seen @ [case m of Some _ \<Rightarrow> t | None \<Rightarrow> v]) vs (methods @ [m]))"

text \<open>\<^verbatim>\<open>source.split(/\n|\r\n?/)\<close>.\<close>

fun split_from :: "string \<Rightarrow> string \<Rightarrow> string list" where
  "split_from cur [] = [cur]"
| "split_from cur (c # cs) =
     (if c = NL then cur # split_from [] cs
      else if c = CR then
        (case cs of
           [] \<Rightarrow> cur # split_from [] cs
         | d # ds \<Rightarrow> if d = NL then cur # split_from [] ds else cur # split_from [] cs)
      else split_from (cur @ [c]) cs)"

definition split_lines :: "string \<Rightarrow> string list" where
  "split_lines s = split_from [] s"

definition header :: "comments_arg \<Rightarrow> state \<Rightarrow> state" where
  "header comments st =
     (case comments of
        CommentString s \<Rightarrow> emit (''// '' @ s @ [NL]) st
      | CommentArray vs \<Rightarrow> fold (\<lambda>v. emit (''// '' @ v @ [NL])) vs st
      | NoComments \<Rightarrow> st)"

definition init :: state where
  "init = \<lparr>lines = [], line = None, line_nr = - 1, preview = None, outputs = []\<rparr>"

text \<open>\<^verbatim>\<open>jsdev\<close>: what the call returns or throws (\<^const>\<open>None\<close> if it does neither),
  and the caller's tags array as the call leaves it.\<close>

definition jsdev ::
  "source_arg \<Rightarrow> tags_arg \<Rightarrow> comments_arg \<Rightarrow> (string + string) option \<times> tags_arg" where
  "jsdev source tags comments =
     (let st1 = header comments init in
        (case tags of
           NoTags \<Rightarrow> (Some (Inl (error (line_nr st1) ''no tags'')), NoTags)
         | TagsArray ts \<Rightarrow>
             (case tags_map (line_nr st1) [] ts [] of
                (Inl e, ts') \<Rightarrow> (Some (Inl e), TagsArray ts')
              | (Inr methods, ts') \<Rightarrow>
                  (case process ts' methods
                          (st1\<lparr>lines := (case source of
                                             SourceString s \<Rightarrow> split_lines s
                                           | SourceArray ls \<Rightarrow> ls)\<rparr>) of
                     None \<Rightarrow> (None, TagsArray ts')
                   | Some (Inl e) \<Rightarrow> (Some (Inl e), TagsArray ts')
                   | Some (Inr st2) \<Rightarrow> (Some (Inr (concat (outputs st2))), TagsArray ts')))))"


section \<open>The stream as a list of characters\<close>

text \<open>What has been written so far, and what \<^verbatim>\<open>get\<close> will still deliver: the
  character held in \<^verbatim>\<open>preview\<close>, the unread part of the current line with its line
  feed, and the lines not yet loaded, each with its line feed. \<^verbatim>\<open>line_nr\<close> starts at
  \<^verbatim>\<open>-1\<close> and only grows.\<close>

definition out :: "state \<Rightarrow> string" where
  "out st = concat (outputs st)"

definition stream_of :: "string list \<Rightarrow> string" where
  "stream_of ls = concat (map (\<lambda>l. l @ [NL]) ls)"

definition rest :: "state \<Rightarrow> string" where
  "rest st =
     (case preview st of None \<Rightarrow> [] | Some c \<Rightarrow> [c])
     @ (case line st of None \<Rightarrow> [] | Some l \<Rightarrow> l @ [NL])
     @ stream_of (drop (nat (line_nr st + 1)) (lines st))"

definition ok :: "state \<Rightarrow> bool" where
  "ok st = (- 1 \<le> line_nr st)"

definition head :: "string \<Rightarrow> char option" where
  "head xs = (case xs of [] \<Rightarrow> None | x # _ \<Rightarrow> Some x)"

lemma out_emit [simp]: "out (emit s st) = out st @ s"
  by (simp add: out_def emit_def)

lemma out_emit_char [simp]:
  "out (emit_char c st) = out st @ (case c of None \<Rightarrow> [] | Some ch \<Rightarrow> [ch])"
  by (simp add: emit_char_def split: option.splits)

lemma rest_emit [simp]: "rest (emit s st) = rest st"
  by (simp add: rest_def)

lemma rest_emit_char [simp]: "rest (emit_char c st) = rest st"
  by (simp add: rest_def)

lemma ok_emit [simp]: "ok (emit s st) = ok st"
  by (simp add: ok_def)

lemma ok_emit_char [simp]: "ok (emit_char c st) = ok st"
  by (simp add: ok_def)

lemma get_False_rest:
  assumes "get False st = (c, st')" and "ok st"
  shows "ok st' \<and> c = head (rest st) \<and> rest st' = tl (rest st) \<and> out st' = out st
         \<and> preview st' = None \<and> lines st' = lines st \<and> line_nr st \<le> line_nr st'"
proof (cases "preview st")
  case (Some p)
  with assms have "c = Some p" "st' = st\<lparr>preview := None\<rparr>"
    by (auto simp: get_def)
  with assms(2) show ?thesis
    by (simp add: Some rest_def ok_def head_def out_def)
next
  case None
  show ?thesis
  proof (cases "line st")
    case (Some l)
    with None assms show ?thesis
      by (cases l) (auto simp: get_def rest_def ok_def head_def out_def)
  next
    case nl: None
    let ?n = "line_nr st + 1"
    from assms(2) have n0: "0 \<le> ?n" by (simp add: ok_def)
    show ?thesis
    proof (cases "lines_at (lines st) ?n")
      case None
      then have "length (lines st) \<le> nat ?n" using n0
        by (auto simp: lines_at_def split: if_splits)
      with None nl \<open>preview st = None\<close> assms show ?thesis
        by (auto simp: get_def take_char_def rest_def ok_def head_def out_def stream_of_def)
    next
      case (Some l)
      then have n: "nat ?n < length (lines st)" and l: "l = lines st ! nat ?n"
        by (auto simp: lines_at_def split: if_splits)
      have d: "drop (nat ?n) (lines st) = l # drop (nat (?n + 1)) (lines st)"
        using drop_step [OF n] n0 l by (simp add: nat_add_distrib Suc_nat_eq_nat_zadd1)
      from Some nl \<open>preview st = None\<close> assms d show ?thesis
        by (cases l)
           (auto simp: get_def take_char_def rest_def ok_def head_def out_def stream_of_def)
    qed
  qed
qed

lemma get_rest:
  assumes "get e st = (c, st')" and "ok st"
  shows "ok st' \<and> c = head (rest st) \<and> rest st' = tl (rest st)
         \<and> out st' = out st @ (if e then take 1 (rest st) else [])
         \<and> preview st' = None \<and> lines st' = lines st \<and> line_nr st \<le> line_nr st'"
proof -
  from get_echo [OF assms(1)] obtain st1 where
    g: "get False st = (c, st1)" and s: "st' = (if e then emit_char c st1 else st1)"
    by blast
  from get_False_rest [OF g assms(2)] s show ?thesis
    by (cases "rest st") (auto simp: head_def)
qed

lemma peek_rest:
  assumes "peek st = (c, st')" and "ok st"
  shows "ok st' \<and> c = head (rest st) \<and> rest st' = rest st \<and> out st' = out st
         \<and> lines st' = lines st \<and> line_nr st \<le> line_nr st'"
proof (cases "preview st")
  case (Some p)
  with assms have "c = Some p" "st' = st"
    by (auto simp: peek_def)
  with assms(2) show ?thesis
    by (simp add: Some rest_def head_def)
next
  case None
  obtain d st1 where g: "get False st = (d, st1)" by force
  with None assms(1) have c: "c = d" and s: "st' = st1\<lparr>preview := d\<rparr>"
    by (auto simp: peek_def)
  from get_False_rest [OF g assms(2)] have
    f: "ok st1" "d = head (rest st)" "rest st1 = tl (rest st)" "out st1 = out st"
       "preview st1 = None" "lines st1 = lines st" "line_nr st \<le> line_nr st1"
    by simp_all
  have "rest st' = (case d of None \<Rightarrow> [] | Some x \<Rightarrow> [x]) @ rest st1"
    using f(5) by (simp add: s rest_def)
  with f c s show ?thesis
    by (cases "rest st") (auto simp: head_def ok_def out_def)
qed

lemma peek_is_rest:
  assumes "peek_is a st = (b, st')" and "ok st"
  shows "ok st' \<and> b = (head (rest st) = Some a) \<and> rest st' = rest st \<and> out st' = out st
         \<and> lines st' = lines st \<and> line_nr st \<le> line_nr st'"
  using assms peek_rest [of st _ st']
  by (auto simp: peek_is_def split: prod.splits)

lemma peek_is2_rest:
  assumes "peek_is2 a b st = (r, st')" and "ok st"
  shows "ok st' \<and> r = (head (rest st) = Some a \<or> head (rest st) = Some b)
         \<and> rest st' = rest st \<and> out st' = out st
         \<and> lines st' = lines st \<and> line_nr st \<le> line_nr st'"
proof -
  obtain p st1 where p: "peek st = (p, st1)" by force
  obtain q st2 where q: "peek st1 = (q, st2)" by force
  note a = peek_rest [OF p assms(2)]
  then have "ok st1" by simp
  note b = peek_rest [OF q this]
  from assms(1) p q a b show ?thesis
    by (auto simp: peek_is2_def split: if_splits)
qed

section \<open>What the routines consume and what they write\<close>

text \<open>\<open>moves st xs ys st'\<close>: from \<open>st\<close> to \<open>st'\<close> the characters \<open>xs\<close> are taken
  from the stream and \<open>ys\<close> is appended to the output. A routine echoes when the two are
  the same.\<close>

definition moves :: "state \<Rightarrow> string \<Rightarrow> string \<Rightarrow> state \<Rightarrow> bool" where
  "moves st xs ys st' =
     (ok st \<longrightarrow> ok st' \<and> lines st' = lines st \<and> line_nr st \<le> line_nr st'
                \<and> rest st = xs @ rest st' \<and> out st' = out st @ ys)"

lemma remaining_rest: "remaining st = length (rest st)"
proof -
  have "sum_list (map (\<lambda>l. Suc (length l)) ls) = length (stream_of ls)" for ls :: "string list"
    by (induction ls) (simp_all add: stream_of_def)
  then show ?thesis
    by (simp add: remaining_def rest_def split: option.splits)
qed

lemma moves_refl [simp]: "moves st [] [] st"
  by (simp add: moves_def)

lemma moves_trans:
  "moves a xs ys b \<Longrightarrow> moves b xs' ys' c \<Longrightarrow> moves a (xs @ xs') (ys @ ys') c"
  by (auto simp: moves_def)

lemma moves_emit: "moves st [] s (emit s st)"
  by (simp add: moves_def)

lemma moves_get:
  "get e st = (c, st') \<Longrightarrow>
     moves st (take 1 (rest st)) (if e then take 1 (rest st) else []) st'"
  using get_rest [of e st c st'] by (cases "rest st") (auto simp: moves_def)

lemma moves_peek: "peek st = (c, st') \<Longrightarrow> moves st [] [] st'"
  using peek_rest [of st c st'] by (auto simp: moves_def)

lemma moves_peek_is: "peek_is a st = (b, st') \<Longrightarrow> moves st [] [] st'"
  using peek_is_rest [of a st b st'] by (auto simp: moves_def)

lemma moves_peek_is2: "peek_is2 a b st = (r, st') \<Longrightarrow> moves st [] [] st'"
  using peek_is2_rest [of a b st r st'] by (auto simp: moves_def)

lemma moves_ok: "moves st xs ys st' \<Longrightarrow> ok st \<Longrightarrow> ok st'"
  by (simp add: moves_def)

definition echoes :: "state \<Rightarrow> state \<Rightarrow> bool" where
  "echoes st st' = (\<exists>xs. moves st xs xs st')"

lemma echoes_refl [simp]: "echoes st st"
  unfolding echoes_def using moves_refl by blast

lemma echoes_trans: "echoes a b \<Longrightarrow> echoes b c \<Longrightarrow> echoes a c"
  unfolding echoes_def using moves_trans by blast

lemma echoes_get: "get True st = (c, st') \<Longrightarrow> echoes st st'"
  unfolding echoes_def using moves_get [of True st c st'] by auto

lemma echoes_peek_is: "peek_is a st = (b, st') \<Longrightarrow> echoes st st'"
  unfolding echoes_def using moves_peek_is by blast

lemma echoes_peek_is2: "peek_is2 a b st = (r, st') \<Longrightarrow> echoes st st'"
  unfolding echoes_def using moves_peek_is2 by blast

lemma string_loop_echoes:
  "string_loop q ic w st = Inr st' \<Longrightarrow> echoes st st'"
proof (induction "remaining st" arbitrary: st rule: less_induct)
  case less
  obtain c st1 where g1: "get True st = (c, st1)" by force
  obtain c2 st2 where g2: "(if c = Some BSL then get True st1 else (c, st1)) = (c2, st2)"
    by force
  obtain hit st3 where
    g3: "(if ic \<and> c2 = Some CHR ''*'' then peek_is CHR ''/'' st2 else (False, st2)) = (hit, st3)"
    by force
  have s1: "echoes st st1" using g1 by (rule echoes_get)
  have s2: "echoes st1 st2" using g2 by (auto split: if_splits intro: echoes_get)
  have s3: "echoes st2 st3" using g3 by (auto split: if_splits intro: echoes_peek_is)
  from less.prems g1 g2 g3
  have "(c = Some q \<and> st' = st1) \<or> (c2 \<noteq> None \<and> string_loop q ic w st3 = Inr st')"
    by (subst (asm) string_loop.simps) (auto split: if_splits)
  then show ?case
  proof
    assume "c = Some q \<and> st' = st1"
    with s1 show ?thesis by simp
  next
    assume a: "c2 \<noteq> None \<and> string_loop q ic w st3 = Inr st'"
    with g1 g2 g3 have "remaining st3 < remaining st"
      by (auto split: if_splits dest!: remaining_get remaining_peek_is)
    from less.hyps [OF this] a have "echoes st3 st'" by simp
    with s1 s2 s3 show ?thesis by (meson echoes_trans)
  qed
qed


lemma string_echoes: "string q ic st = Inr st' \<Longrightarrow> echoes st st'"
  unfolding string_def by (rule string_loop_echoes)

lemma regexp_set_echoes:
  "regexp_set ic st = Inr st' \<Longrightarrow> echoes st st'"
proof (induction "remaining st" arbitrary: st rule: less_induct)
  case less
  obtain c st1 where g1: "get True st = (c, st1)" by force
  obtain c2 st2 where g2: "(if c = Some BSL then get True st1 else (c, st1)) = (c2, st2)"
    by force
  obtain hit st3 where
    g3: "(if ic \<and> c2 = Some CHR ''*'' then peek_is CHR ''/'' st2 else (False, st2)) = (hit, st3)"
    by force
  have s1: "echoes st st1" using g1 by (rule echoes_get)
  have s2: "echoes st1 st2" using g2 by (auto split: if_splits intro: echoes_get)
  have s3: "echoes st2 st3" using g3 by (auto split: if_splits intro: echoes_peek_is)
  from less.prems g1 g2 g3
  have "(c = Some CHR '']'' \<and> st' = st1) \<or> (c2 \<noteq> None \<and> regexp_set ic st3 = Inr st')"
    by (subst (asm) regexp_set.simps) (auto split: if_splits)
  then show ?case
  proof
    assume "c = Some CHR '']'' \<and> st' = st1"
    with s1 show ?thesis by simp
  next
    assume a: "c2 \<noteq> None \<and> regexp_set ic st3 = Inr st'"
    with g1 g2 g3 have "remaining st3 < remaining st"
      by (auto split: if_splits dest!: remaining_get remaining_peek_is)
    from less.hyps [OF this] a have "echoes st3 st'" by simp
    with s1 s2 s3 show ?thesis by (meson echoes_trans)
  qed
qed

lemma regexp_chain_echoes:
  "regexp_chain ic c st1 = Next (c2, st2) \<or> regexp_chain ic c st1 = Return st2
     \<Longrightarrow> echoes st1 st2"
  by (auto simp: regexp_chain_def split: if_splits sum.splits prod.splits
           intro: regexp_set_echoes echoes_get echoes_peek_is2)

lemma regexp_chain_Next:
  "regexp_chain ic c st1 = Next (c2, st2) \<Longrightarrow>
     remaining st2 \<le> remaining st1 \<and> (c2 \<noteq> None \<longrightarrow> c \<noteq> None)"
  by (auto simp: regexp_chain_def split: if_splits sum.splits prod.splits
           dest!: regexp_set_remaining remaining_get)

lemma regexp_loop_echoes:
  "regexp_loop ic w st = Inr st' \<Longrightarrow> echoes st st'"
proof (induction "remaining st" arbitrary: st rule: less_induct)
  case less
  obtain c st1 where g1: "get True st = (c, st1)" by force
  have s1: "echoes st st1" using g1 by (rule echoes_get)
  show ?case
  proof (cases "regexp_chain ic c st1")
    case (Throw e)
    with less.prems g1 show ?thesis by (subst (asm) regexp_loop.simps) simp
  next
    case (Return st2)
    with less.prems g1 have "st' = st2" by (subst (asm) regexp_loop.simps) simp
    with regexp_chain_echoes [of ic c st1 _ st2] Return s1 show ?thesis
      by (meson echoes_trans)
  next
    case (Next x)
    obtain c2 st2 where x: "x = (c2, st2)" by force
    obtain hit st3 where
      g3: "(if ic \<and> c2 = Some CHR ''*'' then peek_is CHR ''/'' st2 else (False, st2)) = (hit, st3)"
      by force
    have s2: "echoes st1 st2" using regexp_chain_echoes [of ic c st1 c2 st2] Next x by simp
    have s3: "echoes st2 st3" using g3 by (auto split: if_splits intro: echoes_peek_is)
    from less.prems g1 Next x g3
    have a: "c2 \<noteq> None \<and> regexp_loop ic w st3 = Inr st'"
      by (subst (asm) regexp_loop.simps) (auto split: if_splits)
    with g1 g3 regexp_chain_Next [OF Next [unfolded x]] have "remaining st3 < remaining st"
      by (auto split: if_splits dest!: remaining_get remaining_peek_is)
    from less.hyps [OF this] a have "echoes st3 st'" by simp
    with s1 s2 s3 show ?thesis by (meson echoes_trans)
  qed
qed

lemma regexp_echoes: "regexp ic st = Inr st' \<Longrightarrow> echoes st st'"
  unfolding regexp_def by (rule regexp_loop_echoes)

lemma condition_chain_echoes:
  "condition_chain l p c st1 = Next (p2, st2) \<or> condition_chain l p c st1 = Return st2
     \<Longrightarrow> echoes st1 st2"
  by (auto simp: condition_chain_def split: if_splits sum.splits prod.splits
           intro: string_echoes regexp_echoes echoes_peek_is echoes_peek_is2
           dest!: echoes_peek_is2 elim: echoes_trans)

lemma condition_loop_echoes:
  "condition_loop l p st = Inr st' \<Longrightarrow> echoes st st'"
proof (induction "remaining st" arbitrary: st l p rule: less_induct)
  case less
  obtain c st1 where g: "get True st = (c, st1)" by force
  have s1: "echoes st st1" using g by (rule echoes_get)
  note r = remaining_get [OF g]
  show ?case
  proof (cases "condition_chain l p c st1")
    case (Throw e)
    with less.prems g show ?thesis
      by (subst (asm) condition_loop.simps) simp
  next
    case (Return st2)
    with less.prems g have "st' = st2" by (subst (asm) condition_loop.simps) simp
    with condition_chain_echoes [of l p c st1 _ st2] Return s1 show ?thesis
      by (meson echoes_trans)
  next
    case (Next x)
    obtain p2 st2 where x: "x = (p2, st2)" by force
    from condition_chain_remaining [OF Next [unfolded x]] r
    have lt: "remaining st2 < remaining st" by auto
    have s2: "echoes st1 st2" using condition_chain_echoes [of l p c st1 p2 st2] Next x by simp
    from less.prems g Next x
    have "condition_loop (if gt_space c then c else l) p2 st2 = Inr st'"
      by (subst (asm) condition_loop.simps) simp
    from less.hyps [OF lt this] s1 s2 show ?thesis by (meson echoes_trans)
  qed
qed


lemma peek_is_True_get_rest:
  assumes "peek_is a st = (True, st1)" and "get e st1 = (c, st2)" and "ok st"
  shows "ok st2 \<and> rest st = a # rest st2 \<and> out st2 = out st @ (if e then [a] else [])
         \<and> lines st2 = lines st \<and> line_nr st \<le> line_nr st2 \<and> preview st2 = None"
proof -
  from peek_is_rest [OF assms(1,3)] have
    a: "ok st1" "head (rest st) = Some a" "rest st1 = rest st" "out st1 = out st"
       "lines st1 = lines st" "line_nr st \<le> line_nr st1"
    by simp_all
  from get_rest [OF assms(2) a(1)] a show ?thesis
    by (cases "rest st") (auto simp: head_def)
qed

lemma skip_spaces_moves:
  "ok st \<Longrightarrow>
     \<exists>n. moves st (replicate n CHR '' '') [] (skip_spaces st)
          \<and> head (rest (skip_spaces st)) \<noteq> Some CHR '' ''"
proof (induction "remaining st" arbitrary: st rule: less_induct)
  case less
  obtain hit st1 where a: "peek_is CHR '' '' st = (hit, st1)" by force
  note pa = peek_is_rest [OF a less.prems]
  show ?case
  proof (cases hit)
    case False
    with a have "skip_spaces st = st1" by (subst skip_spaces.simps) simp
    with pa False moves_peek_is [OF a] show ?thesis
      by (intro exI [of _ 0]) simp
  next
    case True
    obtain c st2 where g: "get False st1 = (c, st2)" by force
    from a True have a': "peek_is CHR '' '' st = (True, st1)" by simp
    note f = peek_is_True_get_rest [OF a' g less.prems]
    have lt: "remaining st2 < remaining st"
      using peek_is_True_get2 [OF a' g] .
    from f have "ok st2" by simp
    from less.hyps [OF lt this] obtain n where
      n: "moves st2 (replicate n CHR '' '') [] (skip_spaces st2)"
         "head (rest (skip_spaces st2)) \<noteq> Some CHR '' ''"
      by blast
    from a' g have e: "skip_spaces st = skip_spaces st2" by (subst skip_spaces.simps) simp
    have "moves st [CHR '' ''] [] st2" using f less.prems by (simp add: moves_def)
    from moves_trans [OF this n(1)] n(2) e show ?thesis
      by (intro exI [of _ "Suc n"]) simp
  qed
qed

lemma stuff_stars_exact:
  assumes "ok st" and "rest st = replicate n CHR ''*'' @ r" and "head r \<noteq> Some CHR ''*''"
  shows "if 0 < n \<and> head r = Some CHR ''/'' then
           (if 0 < p then \<exists>m. stuff_stars p st = Throw (error m ''Unbalanced stuff'')
            else \<exists>st'. stuff_stars p st = Return st'
                   \<and> moves st (replicate n CHR ''*'' @ ''/'') (replicate (n - 1) CHR ''*'') st')
         else \<exists>st'. stuff_stars p st = Next st'
                \<and> moves st (replicate n CHR ''*'') (replicate n CHR ''*'') st'"
  using assms
proof (induction n arbitrary: st)
  case 0
  obtain star st1 where a: "peek_is CHR ''*'' st = (star, st1)" by force
  from peek_is_rest [OF a "0.prems"(1)] "0.prems"(2,3) have "\<not> star" by simp
  with a have "stuff_stars p st = Next st1" by (subst stuff_stars.simps) simp
  with moves_peek_is [OF a] show ?case by simp
next
  case (Suc n)
  obtain star st1 where a: "peek_is CHR ''*'' st = (star, st1)" by force
  from peek_is_rest [OF a Suc.prems(1)] Suc.prems(2) have "star" by (simp add: head_def)
  with a have a': "peek_is CHR ''*'' st = (True, st1)" by simp
  obtain c1 st2 where g1: "get False st1 = (c1, st2)" by force
  note f2 = peek_is_True_get_rest [OF a' g1 Suc.prems(1)]
  with Suc.prems(2) have r2: "rest st2 = replicate n CHR ''*'' @ r" and ok2: "ok st2" by simp_all
  have m2: "moves st ''*'' [] st2" using f2 by (simp add: moves_def)
  obtain slash st3 where b: "peek_is CHR ''/'' st2 = (slash, st3)" by force
  note f3 = peek_is_rest [OF b ok2]
  show ?case
  proof (cases slash)
    case True
    with f3 r2 have n0: "n = 0" and hr: "head r = Some CHR ''/''"
      by (cases n; simp add: head_def)+
    from b True have b': "peek_is CHR ''/'' st2 = (True, st3)" by simp
    obtain c2 st4 where g2: "get False st3 = (c2, st4)" by force
    note f4 = peek_is_True_get_rest [OF b' g2 ok2]
    have m4: "moves st2 ''/'' [] st4" using f4 by (simp add: moves_def)
    from a' g1 b' g2 have
      e: "stuff_stars p st = (if 0 < p then Throw (error (line_nr st4) ''Unbalanced stuff'')
                              else Return st4)"
      by (subst stuff_stars.simps) simp
    from moves_trans [OF m2 m4] e n0 hr show ?thesis by auto
  next
    case False
    from a' g1 b False have e: "stuff_stars p st = stuff_stars p (emit ''*'' st3)"
      by (subst stuff_stars.simps) simp
    from f3 r2 have r3: "rest (emit ''*'' st3) = replicate n CHR ''*'' @ r" "ok (emit ''*'' st3)"
      by simp_all
    have m3: "moves st2 [] ''*'' (emit ''*'' st3)"
      using moves_trans [OF moves_peek_is [OF b] moves_emit [of st3 "''*''"]] by simp
    note m = moves_trans [OF m2 m3]
    from False f3 r2 have nh: "\<not> (n = 0 \<and> head r = Some CHR ''/'')" by (auto simp: head_def)
    note IH = Suc.IH [OF r3(2) r3(1) Suc.prems(3)]
    show ?thesis
    proof (cases "0 < n \<and> head r = Some CHR ''/''")
      case True
      then have n: "CHR ''*'' # replicate (n - 1) CHR ''*'' = replicate n CHR ''*''"
        by (cases n) simp_all
      show ?thesis
      proof (cases "0 < p")
        case p: True
        from IH True p obtain k where "stuff_stars p (emit ''*'' st3) = Throw (error k ''Unbalanced stuff'')"
          by auto
        with e True p show ?thesis by (auto intro: exI [of _ k])
      next
        case p: False
        from IH True p obtain st' where
          r: "stuff_stars p (emit ''*'' st3) = Return st'"
          and m': "moves (emit ''*'' st3) (replicate n CHR ''*'' @ ''/'') (replicate (n - 1) CHR ''*'') st'"
          by auto
        from moves_trans [OF m m'] n
        have "moves st (replicate (Suc n) CHR ''*'' @ ''/'') (replicate (Suc n - 1) CHR ''*'') st'"
          by simp
        with e r True p show ?thesis by simp
      qed
    next
      case False
      with IH obtain st' where
        r: "stuff_stars p (emit ''*'' st3) = Next st'"
        and m': "moves (emit ''*'' st3) (replicate n CHR ''*'') (replicate n CHR ''*'') st'"
        by auto
      from moves_trans [OF m m']
      have "moves st (replicate (Suc n) CHR ''*'') (replicate (Suc n) CHR ''*'') st'"
        by simp
      with e r False nh show ?thesis by auto
    qed
  qed
qed


lemma stars_split: "\<exists>n r. xs = replicate n CHR ''*'' @ r \<and> head r \<noteq> Some CHR ''*''"
proof (induction xs)
  case Nil
  show ?case by (intro exI [of _ 0] exI [of _ "[]"]) (simp add: head_def)
next
  case (Cons x xs)
  then obtain n r where nr: "xs = replicate n CHR ''*'' @ r" "head r \<noteq> Some CHR ''*''" by blast
  show ?case
  proof (cases "x = CHR ''*''")
    case True
    with nr show ?thesis by (intro exI [of _ "Suc n"] exI [of _ r]) simp
  next
    case False
    then show ?thesis by (intro exI [of _ 0] exI [of _ "x # xs"]) (simp add: head_def)
  qed
qed

lemma stuff_chain_echoes:
  "stuff_chain l p c st1 = Next (p2, st2) \<Longrightarrow> echoes st1 st2"
  by (auto simp: stuff_chain_def split: if_splits sum.splits prod.splits
           intro: string_echoes regexp_echoes echoes_peek_is2
           dest!: echoes_peek_is2 elim: echoes_trans)

lemma echoes_moves: "echoes a b \<Longrightarrow> moves b xs ys c \<Longrightarrow> \<exists>zs. moves a (zs @ xs) (zs @ ys) c"
  unfolding echoes_def using moves_trans by blast

lemma echoes_ok: "echoes a b \<Longrightarrow> ok a \<Longrightarrow> ok b"
  unfolding echoes_def moves_def by blast

lemma stuff_loop_moves:
  "stuff_loop l p st = Inr st' \<Longrightarrow> ok st \<Longrightarrow> \<exists>body. moves st (body @ ''*/'') body st'"
proof (induction "remaining st" arbitrary: st l p rule: less_induct)
  case less
  obtain n r where nr: "rest st = replicate n CHR ''*'' @ r" "head r \<noteq> Some CHR ''*''"
    using stars_split by blast
  note ex = stuff_stars_exact [OF less.prems(2) nr, of p]
  show ?case
  proof (cases "0 < n \<and> head r = Some CHR ''/''")
    case True
    show ?thesis
    proof (cases "0 < p")
      case p: True
      with ex True obtain m where "stuff_stars p st = Throw (error m ''Unbalanced stuff'')"
        by auto
      with less.prems(1) show ?thesis by (subst (asm) stuff_loop.simps) simp
    next
      case p: False
      with ex True obtain st1 where
        r: "stuff_stars p st = Return st1"
        and m: "moves st (replicate n CHR ''*'' @ ''/'') (replicate (n - 1) CHR ''*'') st1"
        by auto
      from r less.prems(1) have "st' = st1" by (subst (asm) stuff_loop.simps) simp
      moreover from True have "replicate n CHR ''*'' @ ''/'' = replicate (n - 1) CHR ''*'' @ ''*/''"
        by (cases n) (simp_all add: replicate_append_same)
      ultimately show ?thesis using m by auto
    qed
  next
    case False
    with ex obtain st1 where
      r: "stuff_stars p st = Next st1"
      and m: "moves st (replicate n CHR ''*'') (replicate n CHR ''*'') st1"
      by auto
    then have e1: "echoes st st1" unfolding echoes_def by blast
    note r1 = stuff_stars_Next [OF r]
    obtain c st2 where g: "get True st1 = (c, st2)" by force
    note r2 = remaining_get [OF g]
    have e2: "echoes st1 st2" using g by (rule echoes_get)
    show ?thesis
    proof (cases "stuff_chain l p c st2")
      case (Throw e)
      with less.prems r g show ?thesis
        by (subst (asm) stuff_loop.simps) simp
    next
      case (Return st3)
      with stuff_chain_Return show ?thesis by blast
    next
      case n: (Next x)
      obtain p2 st3 where x: "x = (p2, st3)" by force
      from stuff_chain_remaining [OF n [unfolded x]] r1 r2
      have lt: "remaining st3 < remaining st" by auto
      have e3: "echoes st2 st3" using stuff_chain_echoes n x by blast
      have e: "echoes st st3" using e1 e2 e3 by (meson echoes_trans)
      from less.prems g r n x
      have "stuff_loop (if gt_space c then c else l) p2 st3 = Inr st'"
        by (subst (asm) stuff_loop.simps) simp
      from less.hyps [OF lt this echoes_ok [OF e less.prems(2)]]
      obtain body where "moves st3 (body @ ''*/'') body st'" by blast
      from echoes_moves [OF e this] show ?thesis by (metis append.assoc)
    qed
  qed
qed

lemma stuff_moves:
  assumes "stuff st = Inr st'" and "ok st"
  shows "\<exists>n body. moves st (replicate n CHR '' '' @ body @ ''*/'') body st'
                    \<and> head (body @ ''*/'') \<noteq> Some CHR '' ''"
proof -
  from skip_spaces_moves [OF assms(2)] obtain n where
    n: "moves st (replicate n CHR '' '') [] (skip_spaces st)"
       "head (rest (skip_spaces st)) \<noteq> Some CHR '' ''"
    by blast
  from moves_ok [OF n(1) assms(2)] have ok1: "ok (skip_spaces st)" .
  from assms(1) have "stuff_loop (Some CHR ''{'') 0 (skip_spaces st) = Inr st'"
    by (simp add: stuff_def)
  from stuff_loop_moves [OF this ok1] obtain body where
    b: "moves (skip_spaces st) (body @ ''*/'') body st'" by blast
  with ok1 have "rest (skip_spaces st) = (body @ ''*/'') @ rest st'" by (simp add: moves_def)
  with n(2) have "head (body @ ''*/'') \<noteq> Some CHR '' ''"
    by (cases body) (simp_all add: head_def)
  with moves_trans [OF n(1) b] show ?thesis by auto
qed


lemma condition_moves:
  assumes "condition st = Inr st'" and "ok st"
  shows "\<exists>cnd. moves st cnd cnd st' \<and> cnd \<noteq> []"
proof -
  from assms(1) have "echoes st st'"
    unfolding condition_def by (rule condition_loop_echoes)
  then obtain cnd where m: "moves st cnd cnd st'" unfolding echoes_def by blast
  with assms(2) have "rest st = cnd @ rest st'" by (simp add: moves_def)
  with condition_remaining [OF assms(1)] have "cnd \<noteq> []"
    by (auto simp: remaining_rest)
  with m show ?thesis by blast
qed








text \<open>The four shapes of an expansion: the echoed condition (empty when there is none),
  the bound method (if any) and the body.\<close>

definition expansion :: "string \<Rightarrow> string option \<Rightarrow> string \<Rightarrow> string" where
  "expansion cnd m body =
     (if cnd = [] then [] else ''if '' @ cnd @ '' '') @ ''{''
     @ (case m of None \<Rightarrow> body @ ''}'' | Some f \<Rightarrow> f @ ''('' @ body @ '');}'')"

section \<open>String literals\<close>

text \<open>In the words of the specification: the text holds an unescaped instance of the
  quote, where a backslash escapes the character after it.\<close>

fun closes :: "char \<Rightarrow> string \<Rightarrow> bool" where
  "closes q [] = False"
| "closes q [c] = (c = q)"
| "closes q (c # d # cs) =
     (if c = q then True else if c = BSL then closes q cs else closes q (d # cs))"

text \<open>How the scan of a string literal over a given stream ends.\<close>

datatype lit_end = Closed | CloseComment | Unterminated

fun string_end :: "char \<Rightarrow> bool \<Rightarrow> string \<Rightarrow> lit_end" where
  "string_end q ic [] = Unterminated"
| "string_end q ic [c] = (if c = q then Closed else Unterminated)"
| "string_end q ic (c # d # cs) =
     (if c = q then Closed
      else if c = BSL then
        (if ic \<and> d = CHR ''*'' \<and> head cs = Some CHR ''/'' then CloseComment
         else string_end q ic cs)
      else if ic \<and> c = CHR ''*'' \<and> d = CHR ''/'' then CloseComment
      else string_end q ic (d # cs))"

lemma string_loop_empty:
  assumes "ok st" and "rest st = []"
  shows "string_loop q ic w st = Inl (error w ''unterminated string literal.'')"
proof -
  obtain c st1 where g: "get True st = (c, st1)" by force
  from get_rest [OF g assms(1)] assms(2) have "c = None" by (simp add: head_def)
  with g show ?thesis by (subst string_loop.simps) simp
qed

lemma string_loop_quote:
  assumes "ok st" and "rest st = q # cs"
  shows "\<exists>st1. string_loop q ic w st = Inr st1 \<and> moves st [q] [q] st1"
proof -
  obtain c st1 where g: "get True st = (c, st1)" by force
  from get_rest [OF g assms(1)] assms(2) have "c = Some q" by (simp add: head_def)
  with g have "string_loop q ic w st = Inr st1" by (subst string_loop.simps) simp
  with moves_get [OF g] assms(2) show ?thesis by auto
qed

lemma string_loop_plain:
  assumes "ok st" and "rest st = c # cs" and "c \<noteq> q" and "c \<noteq> BSL"
  shows "if ic \<and> c = CHR ''*'' \<and> head cs = Some CHR ''/''
         then \<exists>m. string_loop q ic w st = Inl (error m ''unexpected close comment in string.'')
         else \<exists>st3. string_loop q ic w st = string_loop q ic w st3 \<and> moves st [c] [c] st3"
proof -
  obtain d st1 where g: "get True st = (d, st1)" by force
  note f = get_rest [OF g assms(1)]
  with assms(2) have d: "d = Some c" and r1: "rest st1 = cs" and ok1: "ok st1"
    by (simp_all add: head_def)
  have m1: "moves st [c] [c] st1" using moves_get [OF g] assms(2) by simp
  show ?thesis
  proof (cases "ic \<and> c = CHR ''*''")
    case False
    with g d assms(3,4) have "string_loop q ic w st = string_loop q ic w st1"
      by (subst string_loop.simps) auto
    with m1 False show ?thesis by auto
  next
    case True
    obtain hit st3 where p: "peek_is CHR ''/'' st1 = (hit, st3)" by force
    note fp = peek_is_rest [OF p ok1]
    from g d assms(3,4) True p have
      e: "string_loop q ic w st =
            (if hit then Inl (error (line_nr st3) ''unexpected close comment in string.'')
             else string_loop q ic w st3)"
      by (subst string_loop.simps) auto
    from fp r1 have h: "hit = (head cs = Some CHR ''/'')" by simp
    have "moves st [c] [c] st3" using moves_trans [OF m1 moves_peek_is [OF p]] by simp
    with e h True show ?thesis by auto
  qed
qed

lemma string_loop_escape:
  assumes "ok st" and "rest st = BSL # cs" and "q \<noteq> BSL"
  shows "case cs of
           [] \<Rightarrow> string_loop q ic w st = Inl (error w ''unterminated string literal.'')
         | x # xs \<Rightarrow>
             if ic \<and> x = CHR ''*'' \<and> head xs = Some CHR ''/''
             then \<exists>m. string_loop q ic w st = Inl (error m ''unexpected close comment in string.'')
             else \<exists>st3. string_loop q ic w st = string_loop q ic w st3
                     \<and> moves st [BSL, x] [BSL, x] st3"
proof -
  obtain d st1 where g: "get True st = (d, st1)" by force
  note f = get_rest [OF g assms(1)]
  with assms(2) have d: "d = Some BSL" and r1: "rest st1 = cs" and ok1: "ok st1"
    by (simp_all add: head_def)
  have m1: "moves st [BSL] [BSL] st1" using moves_get [OF g] assms(2) by simp
  obtain d2 st2 where g2: "get True st1 = (d2, st2)" by force
  note f2 = get_rest [OF g2 ok1]
  show ?thesis
  proof (cases cs)
    case Nil
    with f2 r1 have "d2 = None" by (simp add: head_def)
    with g d g2 assms(3) have "string_loop q ic w st = Inl (error w ''unterminated string literal.'')"
      by (subst string_loop.simps) auto
    with Nil show ?thesis by simp
  next
    case (Cons x xs)
    with f2 r1 have d2: "d2 = Some x" and r2: "rest st2 = xs" and ok2: "ok st2"
      by (simp_all add: head_def)
    have m2: "moves st [BSL, x] [BSL, x] st2"
      using moves_trans [OF m1 moves_get [OF g2]] r1 Cons by simp
    show ?thesis
    proof (cases "ic \<and> x = CHR ''*''")
      case False
      with g d g2 d2 assms(3) have "string_loop q ic w st = string_loop q ic w st2"
        by (subst string_loop.simps) auto
      with m2 False Cons show ?thesis by auto
    next
      case True
      obtain hit st3 where p: "peek_is CHR ''/'' st2 = (hit, st3)" by force
      note fp = peek_is_rest [OF p ok2]
      from g d g2 d2 assms(3) True p have
        e: "string_loop q ic w st =
              (if hit then Inl (error (line_nr st3) ''unexpected close comment in string.'')
               else string_loop q ic w st3)"
        by (subst string_loop.simps) auto
      from fp r2 have h: "hit = (head xs = Some CHR ''/'')" by simp
      have "moves st [BSL, x] [BSL, x] st3"
        using moves_trans [OF m2 moves_peek_is [OF p]] by simp
      with e h True Cons show ?thesis by auto
    qed
  qed
qed


lemma string_loop_end:
  assumes "ok st" and "q \<noteq> BSL"
  shows "case string_end q ic (rest st) of
           Closed \<Rightarrow> \<exists>st'. string_loop q ic w st = Inr st'
         | CloseComment \<Rightarrow>
             \<exists>m. string_loop q ic w st = Inl (error m ''unexpected close comment in string.'')
         | Unterminated \<Rightarrow> string_loop q ic w st = Inl (error w ''unterminated string literal.'')"
  using assms(1)
proof (induction "length (rest st)" arbitrary: st rule: less_induct)
  case less
  note ok = less.prems
  show ?case
  proof (cases "rest st")
    case Nil
    with string_loop_empty [OF ok Nil] show ?thesis by simp
  next
    case (Cons c cs)
    show ?thesis
    proof (cases "c = q")
      case True
      with string_loop_quote [OF ok Cons [unfolded True]] Cons show ?thesis
        by (cases cs) auto
    next
      case nq: False
      show ?thesis
      proof (cases "c = BSL")
        case True
        note esc = string_loop_escape [OF ok Cons [unfolded True] assms(2), of ic w]
        show ?thesis
        proof (cases cs)
          case Nil
          with esc Cons True nq show ?thesis by simp
        next
          case c2: (Cons x xs)
          show ?thesis
          proof (cases "ic \<and> x = CHR ''*'' \<and> head xs = Some CHR ''/''")
            case cc: True
            with esc c2 Cons True nq show ?thesis by simp
          next
            case cc: False
            with esc c2 obtain st3 where
              e: "string_loop q ic w st = string_loop q ic w st3"
              and m: "moves st [BSL, x] [BSL, x] st3"
              by auto
            from m ok Cons True c2 have r3: "rest st3 = xs" and ok3: "ok st3"
              by (simp_all add: moves_def)
            with Cons c2 have "length (rest st3) < length (rest st)" by simp
            from less.hyps [OF this ok3] r3 cc Cons True c2 nq show ?thesis
              by (auto simp: e split: lit_end.splits)
          qed
        qed
      next
        case nb: False
        note pl = string_loop_plain [OF ok Cons nq nb, of ic w]
        show ?thesis
        proof (cases "ic \<and> c = CHR ''*'' \<and> head cs = Some CHR ''/''")
          case cc: True
          with pl Cons nq nb show ?thesis by (cases cs) (auto simp: head_def)
        next
          case cc: False
          with pl obtain st3 where
            e: "string_loop q ic w st = string_loop q ic w st3"
            and m: "moves st [c] [c] st3"
            by auto
          from m ok Cons have r3: "rest st3 = cs" and ok3: "ok st3"
            by (simp_all add: moves_def)
          with Cons have "length (rest st3) < length (rest st)" by simp
          from less.hyps [OF this ok3] r3 cc Cons nq nb show ?thesis
            by (cases cs) (auto simp: head_def e split: lit_end.splits)
        qed
      qed
    qed
  qed
qed

lemma close_split:
  "(\<exists>pre post. c # d # cs = pre @ CHR ''*'' # CHR ''/'' # post \<and> \<not> closes q pre) =
     ((c = CHR ''*'' \<and> d = CHR ''/'')
      \<or> (c \<noteq> q \<and> d = CHR ''*'' \<and> head cs = Some CHR ''/'')
      \<or> (\<exists>pre post. cs = pre @ CHR ''*'' # CHR ''/'' # post \<and> \<not> closes q (c # d # pre)))"
  (is "?L = ?R")
proof
  assume ?L
  then obtain pre post where e: "c # d # cs = pre @ CHR ''*'' # CHR ''/'' # post" and n: "\<not> closes q pre"
    by blast
  show ?R
  proof (cases pre)
    case Nil
    with e show ?thesis by simp
  next
    case p1: (Cons a pre1)
    show ?thesis
    proof (cases pre1)
      case Nil
      with p1 e n show ?thesis by (auto simp: head_def)
    next
      case (Cons b pre2)
      with p1 e n show ?thesis by auto
    qed
  qed
next
  assume ?R
  then consider (a) "c = CHR ''*'' \<and> d = CHR ''/''"
    | (b) "c \<noteq> q \<and> d = CHR ''*'' \<and> head cs = Some CHR ''/''"
    | (c) "\<exists>pre post. cs = pre @ CHR ''*'' # CHR ''/'' # post \<and> \<not> closes q (c # d # pre)"
    by blast
  then show ?L
  proof cases
    case a
    then have "c # d # cs = [] @ CHR ''*'' # CHR ''/'' # cs \<and> \<not> closes q []" by simp
    then show ?thesis by blast
  next
    case b
    then obtain post where "cs = CHR ''/'' # post" by (cases cs) (auto simp: head_def)
    with b have "c # d # cs = [c] @ CHR ''*'' # CHR ''/'' # post \<and> \<not> closes q [c]" by simp
    then show ?thesis by blast
  next
    case c
    then obtain pre post where "cs = pre @ CHR ''*'' # CHR ''/'' # post" "\<not> closes q (c # d # pre)" by blast
    then have "c # d # cs = (c # d # pre) @ CHR ''*'' # CHR ''/'' # post \<and> \<not> closes q (c # d # pre)" by simp
    then show ?thesis by blast
  qed
qed

lemma close_comment_iff:
  assumes "q \<noteq> BSL" and "q \<noteq> CHR ''*''"
  shows "(string_end q True xs = CloseComment)
           = (\<exists>pre post. xs = pre @ CHR ''*'' # CHR ''/'' # post \<and> \<not> closes q pre)"
proof (induction "length xs" arbitrary: xs rule: less_induct)
  case less
  show ?case
  proof (cases xs)
    case Nil
    then show ?thesis by simp
  next
    case c1: (Cons c xs1)
    show ?thesis
    proof (cases xs1)
      case Nil
      with c1 show ?thesis by simp
    next
      case (Cons d cs)
      have IH1: "(string_end q True cs = CloseComment)
                   = (\<exists>pre post. cs = pre @ CHR ''*'' # CHR ''/'' # post \<and> \<not> closes q pre)"
        using less [of cs] c1 Cons by simp
      have IH2: "(string_end q True (d # cs) = CloseComment)
                   = (\<exists>pre post. d # cs = pre @ CHR ''*'' # CHR ''/'' # post \<and> \<not> closes q pre)"
        using less [of "d # cs"] c1 Cons by simp
      have x: "xs = c # d # cs" using c1 Cons by simp
      have "(string_end q True (c # d # cs) = CloseComment)
              = (\<exists>pre post. c # d # cs = pre @ CHR ''*'' # CHR ''/'' # post \<and> \<not> closes q pre)"
      proof (cases "c = q")
        case True
        with assms show ?thesis by (subst close_split) auto
      next
        case nq: False
        show ?thesis
        proof (cases "c = BSL")
          case True
          with nq assms IH1 show ?thesis by (subst close_split) auto
        next
          case nb: False
          have "(\<exists>pre post. d # cs = pre @ CHR ''*'' # CHR ''/'' # post \<and> \<not> closes q pre)
                 = ((d = CHR ''*'' \<and> head cs = Some CHR ''/'')
                    \<or> (\<exists>pre post. cs = pre @ CHR ''*'' # CHR ''/'' # post \<and> \<not> closes q (d # pre)))"
            (is "?A = ?B")
          proof
            assume ?A
            then obtain pre post where e: "d # cs = pre @ CHR ''*'' # CHR ''/'' # post" "\<not> closes q pre" by blast
            then show ?B by (cases pre) (auto simp: head_def)
          next
            assume ?B
            then show ?A
            proof
              assume "d = CHR ''*'' \<and> head cs = Some CHR ''/''"
              then obtain post where "d # cs = [] @ CHR ''*'' # CHR ''/'' # post" by (cases cs) (auto simp: head_def)
              then show ?A by (metis closes.simps(1))
            next
              assume "\<exists>pre post. cs = pre @ CHR ''*'' # CHR ''/'' # post \<and> \<not> closes q (d # pre)"
              then obtain pre post where "d # cs = (d # pre) @ CHR ''*'' # CHR ''/'' # post" "\<not> closes q (d # pre)"
                by auto
              then show ?A by blast
            qed
          qed
          with nq nb IH2 show ?thesis by (subst close_split) auto
        qed
      qed
      with x show ?thesis by simp
    qed
  qed
qed


lemma error_ends: "\<exists>p. error n msg = p @ msg"
  by (simp add: error_def)

lemma error_close_unterminated:
  "error m ''unexpected close comment in string.'' \<noteq> error w ''unterminated string literal.''"
proof
  assume a: "error m ''unexpected close comment in string.'' = error w ''unterminated string literal.''"
  obtain p where p: "error m ''unexpected close comment in string.'' = p @ ''unexpected close comment in string.''"
    using error_ends by blast
  obtain p' where p': "error w ''unterminated string literal.'' = p' @ ''unterminated string literal.''"
    using error_ends by blast
  from a p p' have "rev (p @ ''unexpected close comment in string.'') = rev (p' @ ''unterminated string literal.'')"
    by simp
  then have "take 2 (rev (p @ ''unexpected close comment in string.''))
               = take 2 (rev (p' @ ''unterminated string literal.''))"
    by simp
  then show False by simp
qed

section \<open>The second revision\<close>

text \<open>
  \<^verbatim>\<open>src/unnamed/part_000\<close> is a later revision of the same file. It writes \<^verbatim>\<open>let\<close>
  for \<^verbatim>\<open>var\<close> and double quotes for single quotes, uses \<^verbatim>\<open>undefined\<close> where the
  first revision uses \<^verbatim>\<open>null\<close> (as the end-of-input sentinel and as the empty value of
  \<^verbatim>\<open>line\<close> and \<^verbatim>\<open>preview\<close>; both are \<^const>\<open>None\<close> here: they are falsy, are
  not of type string, equal no character and are not greater than a space), and writes
  \<^verbatim>\<open>return error(...)\<close> for \<^verbatim>\<open>error(...)\<close>, which throws either way. With that,
  \<^verbatim>\<open>error\<close>, \<^verbatim>\<open>emit\<close>, \<^verbatim>\<open>get\<close>, \<^verbatim>\<open>peek\<close>,
  \<^verbatim>\<open>unget\<close>, \<^verbatim>\<open>string\<close>, \<^verbatim>\<open>pre_regexp\<close>, \<^verbatim>\<open>regexp\<close> and \<^verbatim>\<open>stuff\<close>
  (whose test for the end of input already came first) have the embedding given above.
  Two routines differ. In \<^verbatim>\<open>condition\<close> the test for the end of input has moved from
  the third place of the chain to the front. And \<^verbatim>\<open>is_alphanum\<close>, whose text is the
  same, gives \<^verbatim>\<open>false\<close> on the sentinel of this revision, since every comparison with
  \<^verbatim>\<open>undefined\<close> is false; so the tag loop of \<^verbatim>\<open>process\<close> ends at the end of the
  input at the latest, and \<^verbatim>\<open>process\<close> always returns or throws. Both are embedded
  anew below, and with them the routines that reach them: \<^verbatim>\<open>expand\<close>,
  \<^verbatim>\<open>process\<close> and \<^verbatim>\<open>jsdev\<close>.
\<close>

definition condition_chain2 ::
  "char option \<Rightarrow> int \<Rightarrow> char option \<Rightarrow> state \<Rightarrow> (int \<times> state) flow" where
  "condition_chain2 left paren c st1 =
     (if c = None then Throw (error (line_nr st1) ''Unterminated condition.'')
      else if is_open c then Next (paren + 1, st1)
      else if is_close c then
        (if paren - 1 = 0 then Return st1 else Next (paren - 1, st1))
      else if is_quote c then
        (case string (the c) True st1 of
           Inl e \<Rightarrow> Throw e
         | Inr st2 \<Rightarrow> Next (paren, st2))
      else if c = Some CHR ''/'' then
        (case peek_is2 CHR ''/'' CHR ''*'' st1 of (hit, st2) \<Rightarrow>
           if hit then Throw (error (line_nr st2) ''unexpected comment.'')
           else if pre_regexp left then
             (case regexp True st2 of
                Inl e \<Rightarrow> Throw e
              | Inr st3 \<Rightarrow> Next (paren, st3))
           else Next (paren, st2))
      else if c = Some CHR ''*'' then
        (case peek_is CHR ''/'' st1 of (hit, st2) \<Rightarrow>
           if hit then Throw (error (line_nr st2) ''unclosed condition.'')
           else Next (paren, st2))
      else Next (paren, st1))"

lemma condition_chain2_eq: "condition_chain2 left paren c st1 = condition_chain left paren c st1"
  by (cases c) (simp_all add: condition_chain2_def condition_chain_def is_open_def is_close_def)

function condition_loop2 :: "char option \<Rightarrow> int \<Rightarrow> state \<Rightarrow> string + state" where
  "condition_loop2 left paren st =
     (case get True st of (c, st1) \<Rightarrow>
        (case condition_chain2 left paren c st1 of
           Throw e \<Rightarrow> Inl e
         | Return st2 \<Rightarrow> Inr st2
         | Next (paren2, st2) \<Rightarrow>
             condition_loop2 (if gt_space c then c else left) paren2 st2))"
  by pat_completeness auto
termination
proof (relation "measure (\<lambda>(l, p, st). remaining st)", goal_cases)
  case 1
  show ?case by simp
next
  case 2
  then show ?case
    by (auto simp: condition_chain2_eq dest!: remaining_rules condition_chain_remaining)
qed

declare condition_loop2.simps [simp del]

lemma condition_loop2_eq: "condition_loop2 l p st = condition_loop l p st"
proof (induction "remaining st" arbitrary: st l p rule: less_induct)
  case less
  obtain c st1 where g: "get True st = (c, st1)" by force
  note r = remaining_get [OF g]
  show ?case
  proof (cases "condition_chain l p c st1")
    case (Throw e)
    with g show ?thesis
      by (subst condition_loop2.simps, subst condition_loop.simps)
         (simp add: condition_chain2_eq)
  next
    case (Return st2)
    with g show ?thesis
      by (subst condition_loop2.simps, subst condition_loop.simps)
         (simp add: condition_chain2_eq)
  next
    case (Next x)
    obtain p2 st2 where x: "x = (p2, st2)" by force
    from condition_chain_remaining [OF Next [unfolded x]] r
    have lt: "remaining st2 < remaining st" by auto
    from less.hyps [OF lt] g Next x show ?thesis
      by (subst condition_loop2.simps, subst condition_loop.simps)
         (simp add: condition_chain2_eq)
  qed
qed


definition condition2 :: "state \<Rightarrow> string + state" where
  "condition2 st = condition_loop2 (Some CHR ''{'') 0 st"

lemma condition2_eq: "condition2 = condition"
  by (rule ext) (simp add: condition2_def condition_def condition_loop2_eq)

definition expand2 :: "string option list \<Rightarrow> int \<Rightarrow> state \<Rightarrow> string + state" where
  "expand2 methods tag_nr st =
     (case peek st of (c, st1) \<Rightarrow>
        (case (if c = Some CHR ''('' then
                 (case condition2 (emit ''if '' st1) of
                    Inl e \<Rightarrow> Inl e
                  | Inr st2 \<Rightarrow> Inr (emit '' '' st2))
               else Inr st1) of
           Inl e \<Rightarrow> Inl e
         | Inr st3 \<Rightarrow>
             (case method_at methods tag_nr of
                Some m \<Rightarrow>
                  (case stuff (emit (m @ ''('') (emit ''{'' st3)) of
                     Inl e \<Rightarrow> Inl e
                   | Inr st4 \<Rightarrow> Inr (emit '');}'' st4))
              | None \<Rightarrow>
                  (case stuff (emit ''{'' st3) of
                     Inl e \<Rightarrow> Inl e
                   | Inr st4 \<Rightarrow> Inr (emit ''}'' st4)))))"


lemma expand2_eq: "expand2 = expand"
  unfolding expand2_def [abs_def] expand_def [abs_def] condition2_eq by (rule refl)

text \<open>\<^verbatim>\<open>is_alphanum\<close> of the second revision: on \<^verbatim>\<open>undefined\<close>, which converts to
  \<^verbatim>\<open>NaN\<close>, each of the six comparisons is false, and so are the three equalities.\<close>

definition is_alphanum2 :: "char option \<Rightarrow> bool" where
  "is_alphanum2 c =
     (case c of None \<Rightarrow> False
      | Some ch \<Rightarrow>
          (let n = (of_char ch :: nat) in
             (97 \<le> n \<and> n \<le> 122) \<or> (48 \<le> n \<and> n \<le> 57) \<or> (65 \<le> n \<and> n \<le> 90)
             \<or> ch = CHR ''_'' \<or> ch = CHR ''$'' \<or> ch = CHR ''.''))"

lemma is_alphanum2_Some: "is_alphanum2 (Some ch) = is_alphanum (Some ch)"
  by (simp add: is_alphanum2_def is_alphanum_def)

lemma is_alphanum2_None: "\<not> is_alphanum2 None"
  by (simp add: is_alphanum2_def)

lemma is_alphanum_None: "is_alphanum None"
  by (simp add: is_alphanum_def)

text \<open>The tag loop: it ends at the first character that is not a tag character, the
  sentinel included.\<close>

function read_tag2 :: "string \<Rightarrow> state \<Rightarrow> string \<times> char option \<times> state" where
  "read_tag2 tag st =
     (case get False st of (c, st1) \<Rightarrow>
        if \<not> is_alphanum2 c then (tag, c, st1)
        else read_tag2 (tag @ (case c of None \<Rightarrow> ''undefined'' | Some ch \<Rightarrow> [ch])) st1)"
  by pat_completeness auto
termination
proof (relation "measure (\<lambda>(t, st). remaining st)", goal_cases)
  case 1
  show ?case by simp
next
  case 2
  then show ?case
    by (auto simp: is_alphanum2_def split: option.splits dest!: remaining_rules)
qed

declare read_tag2.simps [simp del]

lemma read_tag2_remaining:
  "read_tag2 t st = (tag, c, st') \<Longrightarrow> remaining st' \<le> remaining st \<and> preview st' = None"
proof (induction "remaining st" arbitrary: st t rule: less_induct)
  case less
  obtain d st1 where g: "get False st = (d, st1)" by force
  note r = remaining_get [OF g] get_False_preview [OF g]
  show ?case
  proof (cases "is_alphanum2 d")
    case False
    with less.prems g r show ?thesis by (subst (asm) read_tag2.simps) auto
  next
    case True
    then have "d \<noteq> None" by (cases d) (auto simp: is_alphanum2_def)
    with r have lt: "remaining st1 < remaining st" by auto
    from less.prems g True have "read_tag2 (t @ (case d of None \<Rightarrow> ''undefined'' | Some ch \<Rightarrow> [ch])) st1 = (tag, c, st')"
      by (subst (asm) read_tag2.simps) auto
    from less.hyps [OF lt this] lt show ?thesis by simp
  qed
qed


definition process_step2 ::
  "string list \<Rightarrow> string option list \<Rightarrow> cur \<Rightarrow> char option \<Rightarrow> state
     \<Rightarrow> ((cur \<times> char option) \<times> state) flow" where
  "process_step2 tags methods c left st =
     (if is_quote (cur_char c) then
        (case string (the (cur_char c)) False (emit_char (cur_char c) st) of
           Inl e \<Rightarrow> Throw e
         | Inr st1 \<Rightarrow> Next ((Zero, left), st1))
      else if c = Ch CHR ''/'' then
        (case peek_is CHR ''/'' st of (slash, st1) \<Rightarrow>
           if slash then
             (case get False (line_comment (emit ''/'' st1)) of (c2, st2) \<Rightarrow>
                Next ((of_get c2, left), st2))
           else
             (case peek_is CHR ''*'' st1 of (star, st2) \<Rightarrow>
                if star then
                  (case get False st2 of (c0, st3) \<Rightarrow>
                     (case read_tag2 [] st3 of (tag, c1, st4) \<Rightarrow>
                        (case (if 0 \<le> (if tag = [] then - 1 else index_of tags tag)
                               then expand2 methods (index_of tags tag) (unget c1 st4)
                               else comment_loop c1
                                      (emit tag (emit ''/*'' (unget c1 st4)))) of
                           Inl e \<Rightarrow> Throw e
                         | Inr st5 \<Rightarrow>
                             (case get False st5 of (c2, st6) \<Rightarrow>
                                Next ((of_get c2, left), st6)))))
                else
                  (case (if pre_regexp left then regexp False (emit ''/'' st2)
                         else Inr (emit ''/'' st2)) of
                     Inl e \<Rightarrow> Throw e
                   | Inr st3 \<Rightarrow>
                       (case get False st3 of (c2, st4) \<Rightarrow>
                          Next ((of_get c2, Some CHR ''/''), st4)))))
      else
        (case get False (emit_char (cur_char c) st) of (c2, st1) \<Rightarrow>
           Next ((of_get c2, if gt_space (cur_char c) then cur_char c else left), st1)))"

text \<open>The same with \<^const>\<open>expand\<close> of the first revision, which \<^const>\<open>expand2\<close> equals.\<close>

lemma process_step2_unfold:
  "process_step2 tags methods c left st =
     (if is_quote (cur_char c) then
        (case string (the (cur_char c)) False (emit_char (cur_char c) st) of
           Inl e \<Rightarrow> Throw e
         | Inr st1 \<Rightarrow> Next ((Zero, left), st1))
      else if c = Ch CHR ''/'' then
        (case peek_is CHR ''/'' st of (slash, st1) \<Rightarrow>
           if slash then
             (case get False (line_comment (emit ''/'' st1)) of (c2, st2) \<Rightarrow>
                Next ((of_get c2, left), st2))
           else
             (case peek_is CHR ''*'' st1 of (star, st2) \<Rightarrow>
                if star then
                  (case get False st2 of (c0, st3) \<Rightarrow>
                     (case read_tag2 [] st3 of (tag, c1, st4) \<Rightarrow>
                        (case (if 0 \<le> (if tag = [] then - 1 else index_of tags tag)
                               then expand methods (index_of tags tag) (unget c1 st4)
                               else comment_loop c1
                                      (emit tag (emit ''/*'' (unget c1 st4)))) of
                           Inl e \<Rightarrow> Throw e
                         | Inr st5 \<Rightarrow>
                             (case get False st5 of (c2, st6) \<Rightarrow>
                                Next ((of_get c2, left), st6)))))
                else
                  (case (if pre_regexp left then regexp False (emit ''/'' st2)
                         else Inr (emit ''/'' st2)) of
                     Inl e \<Rightarrow> Throw e
                   | Inr st3 \<Rightarrow>
                       (case get False st3 of (c2, st4) \<Rightarrow>
                          Next ((of_get c2, Some CHR ''/''), st4)))))
      else
        (case get False (emit_char (cur_char c) st) of (c2, st1) \<Rightarrow>
           Next ((of_get c2, if gt_space (cur_char c) then cur_char c else left), st1)))"
  unfolding process_step2_def expand2_eq by (rule refl)

lemma process_step2_measure:
  assumes "process_step2 tags methods c left st = Next ((c', l'), st')"
  shows "process_measure c' st' < 2 * remaining st + 2"
proof (cases "is_quote (cur_char c)")
  case True
  with assms obtain st1 where
    "string (the (cur_char c)) False (emit_char (cur_char c) st) = Inr st1"
    "c' = Zero" "st' = st1"
    by (auto simp: process_step2_unfold split: sum.splits)
  with string_remaining [OF this(1)] show ?thesis
    by (simp add: process_measure_def)
next
  case nq: False
  show ?thesis
  proof (cases "c = Ch CHR ''/''")
    case False
    with nq assms show ?thesis
      by (auto simp: process_step2_unfold split: prod.splits
               dest!: process_measure_get)
  next
    case sl: True
    obtain slash st1 where a: "peek_is CHR ''/'' st = (slash, st1)" by force
    note ra = remaining_peek_is [OF a]
    show ?thesis
    proof (cases slash)
      case True
      with nq sl a assms ra remaining_line_comment [of "emit ''/'' st1"] show ?thesis
        by (auto simp: process_step2_unfold split: prod.splits
                 dest!: process_measure_get)
    next
      case ns: False
      obtain star st2 where b: "peek_is CHR ''*'' st1 = (star, st2)" by force
      note rb = remaining_peek_is [OF b]
      show ?thesis
      proof (cases star)
        case False
        with nq sl a b ns assms ra rb show ?thesis
          by (auto simp: process_step2_unfold split: prod.splits sum.splits if_splits
                   dest!: process_measure_get regexp_remaining)
      next
        case True
        obtain c0 st3 where g: "get False st2 = (c0, st3)" by force
        obtain tag c1 st4 where t: "read_tag2 [] st3 = (tag, c1, st4)"
          by (cases "read_tag2 [] st3") auto
        from b True g have "remaining st3 < remaining st1"
          using peek_is_True_get2 [of _ st1 st2 False c0 st3] by simp
        with read_tag2_remaining [OF t] remaining_unget [of st4 c1] ra
        have ru: "remaining (unget c1 st4) \<le> remaining st" by simp
        from nq sl a b ns True g t assms obtain st5 c2 where
          e: "(if 0 \<le> (if tag = [] then - 1 else index_of tags tag)
               then expand methods (index_of tags tag) (unget c1 st4)
               else comment_loop c1 (emit tag (emit ''/*'' (unget c1 st4)))) = Inr st5"
          and g2: "get False st5 = (c2, st')" and c': "c' = of_get c2"
          by (auto simp: process_step2_unfold split: prod.splits sum.splits)
        from e ru have "remaining st5 \<le> remaining st"
          by (auto split: if_splits dest!: expand_remaining comment_loop_remaining)
        with process_measure_get [OF g2] c' show ?thesis by simp
      qed
    qed
  qed
qed


function process_loop2 ::
  "string list \<Rightarrow> string option list \<Rightarrow> cur \<Rightarrow> char option \<Rightarrow> state \<Rightarrow> string + state" where
  "process_loop2 tags methods c left st =
     (if c = Eof then Inr st
      else
        (case process_step2 tags methods c left st of
           Throw e \<Rightarrow> Inl e
         | Return st1 \<Rightarrow> Inr st1
         | Next ((c2, left2), st1) \<Rightarrow> process_loop2 tags methods c2 left2 st1))"
  by pat_completeness auto
termination
proof (relation "measure (\<lambda>(t, m, c, l, st). process_measure c st)", goal_cases)
  case 1
  show ?case by simp
next
  case 2
  then show ?case
    by (auto dest!: process_step2_measure simp: process_measure_def split: cur.splits)
qed

declare process_loop2.simps [simp del]

definition process2 :: "string list \<Rightarrow> string option list \<Rightarrow> state \<Rightarrow> string + state" where
  "process2 tags methods st =
     (case get False st of (c, st1) \<Rightarrow> process_loop2 tags methods (of_get c) None st1)"

definition jsdev2 :: "source_arg \<Rightarrow> tags_arg \<Rightarrow> comments_arg \<Rightarrow> (string + string) \<times> tags_arg" where
  "jsdev2 source tags comments =
     (let st1 = header comments init in
        (case tags of
           NoTags \<Rightarrow> (Inl (error (line_nr st1) ''no tags''), NoTags)
         | TagsArray ts \<Rightarrow>
             (case tags_map (line_nr st1) [] ts [] of
                (Inl e, ts') \<Rightarrow> (Inl e, TagsArray ts')
              | (Inr methods, ts') \<Rightarrow>
                  (case process2 ts' methods
                          (st1\<lparr>lines := (case source of
                                             SourceString s \<Rightarrow> split_lines s
                                           | SourceArray ls \<Rightarrow> ls)\<rparr>) of
                     Inl e \<Rightarrow> (Inl e, TagsArray ts')
                   | Inr st2 \<Rightarrow> (Inr (concat (outputs st2)), TagsArray ts')))))"

section \<open>The tag loop and the end of the input\<close>

text \<open>
  The tag loop of the first revision does not end once \<^verbatim>\<open>get\<close> gives the sentinel.
  It is entered after \<^verbatim>\<open>peek\<close> has given a \<^verbatim>\<open>*\<close>, and a character other than a
  line feed that \<^verbatim>\<open>get\<close> takes from the lines leaves the rest of its line, with the
  line feed that ends it, still to be read: so the loop meets a line feed before the
  sentinel. \<open>pending\<close> is the property of the states of the dispatcher that this rests
  on: a character held in \<^verbatim>\<open>preview\<close>, unless it is a line feed, comes from a line that
  is still held. With it every run of the first revision returns or throws exactly as the
  second revision does.
\<close>

definition pending :: "state \<Rightarrow> bool" where
  "pending st = (case preview st of None \<Rightarrow> True | Some p \<Rightarrow> p = NL \<or> line st \<noteq> None)"

lemma get_preview: "get e st = (c, st') \<Longrightarrow> preview st' = None"
  by (auto simp: get_def take_char_def split: option.splits list.splits if_splits)

lemma get_line:
  "preview st = None \<Longrightarrow> get e st = (Some ch, st') \<Longrightarrow> ch \<noteq> NL \<Longrightarrow> line st' \<noteq> None"
  by (auto simp: get_def take_char_def split: option.splits list.splits if_splits)

lemma peek_pending:
  assumes "pending st" and "peek st = (c, st1)"
  shows "pending st1 \<and> preview st1 = c"
proof (cases "preview st")
  case (Some p)
  with assms show ?thesis by (simp add: peek_def)
next
  case None
  obtain d s where g: "get False st = (d, s)" by force
  with None assms(2) have e: "c = d" "st1 = s\<lparr>preview := d\<rparr>" by (auto simp: peek_def)
  show ?thesis
  proof (cases d)
    case None
    with e show ?thesis by (simp add: pending_def)
  next
    case (Some ch)
    with get_line [OF \<open>preview st = None\<close> g [unfolded Some]] e show ?thesis
      by (auto simp: pending_def)
  qed
qed

lemma peek_is_pending:
  "pending st \<Longrightarrow> peek_is a st = (b, st1) \<Longrightarrow> pending st1 \<and> (b \<longrightarrow> preview st1 = Some a)"
  by (auto simp: peek_is_def split: prod.splits dest: peek_pending)

lemma read_tag_total:
  "preview st = None \<Longrightarrow> line st = Some l \<Longrightarrow> read_tag t st = Some (read_tag2 t st)"
proof (induction l arbitrary: t st)
  case Nil
  then have "get False st = (Some NL, st\<lparr>line := None\<rparr>)" by (simp add: get_def)
  then show ?case
    by (subst read_tag.simps, subst read_tag2.simps)
       (simp add: is_alphanum_def is_alphanum2_def)
next
  case (Cons x xs)
  let ?s = "st\<lparr>line := Some xs\<rparr>"
  from Cons.prems have g: "get False st = (Some x, ?s)" by (simp add: get_def)
  from Cons.prems have "preview ?s = None" "line ?s = Some xs" by simp_all
  from Cons.IH [OF this] g show ?case
    by (subst read_tag.simps, subst read_tag2.simps) (simp add: is_alphanum2_Some)
qed

lemma string_loop_preview: "string_loop q ic w st = Inr st' \<Longrightarrow> preview st' = None"
proof (induction "remaining st" arbitrary: st rule: less_induct)
  case less
  obtain c st1 where g1: "get True st = (c, st1)" by force
  obtain c2 st2 where g2: "(if c = Some BSL then get True st1 else (c, st1)) = (c2, st2)"
    by force
  obtain hit st3 where p: "(if ic \<and> c2 = Some CHR ''*'' then peek_is CHR ''/'' st2
                    else (False, st2)) = (hit, st3)" by force
  show ?case
  proof (cases "c = Some q")
    case True
    with less.prems g1 have "st' = st1" by (subst (asm) string_loop.simps) simp
    with get_preview [OF g1] show ?thesis by simp
  next
    case False
    with less.prems g1 g2 p have r: "string_loop q ic w st3 = Inr st'" and n: "c2 \<noteq> None"
      by (subst (asm) string_loop.simps; simp split: if_splits)+
    from n g2 have "c \<noteq> None" by (auto split: if_splits)
    with remaining_get [OF g1] have "remaining st1 < remaining st" by simp
    moreover from g2 have "remaining st2 \<le> remaining st1"
      by (auto split: if_splits dest!: remaining_get)
    moreover from p have "remaining st3 = remaining st2"
      by (auto split: if_splits dest!: remaining_peek_is)
    ultimately have "remaining st3 < remaining st" by simp
    from less.hyps [OF this r] show ?thesis .
  qed
qed

lemma process_step2_preview:
  assumes "process_step2 tags methods c left st = Next ((c', l'), st')"
  shows "preview st' = None"
  using assms
  by (auto simp: process_step2_def string_def
           split: if_splits sum.splits prod.splits
           dest: get_preview string_loop_preview)

lemma process_step_total:
  assumes "pending st"
  shows "process_step tags methods c left st = Some (process_step2 tags methods c left st)"
proof -
  obtain slash st1 where a: "peek_is CHR ''/'' st = (slash, st1)" by force
  obtain star st2 where b: "peek_is CHR ''*'' st1 = (star, st2)" by force
  obtain c0 st3 where g: "get False st2 = (c0, st3)" by force
  from peek_is_pending [OF assms a] have p1: "pending st1" by simp
  from peek_is_pending [OF p1 b] have p2: "pending st2" "star \<longrightarrow> preview st2 = Some CHR ''*''"
    by simp_all
  have "read_tag [] st3 = Some (read_tag2 [] st3)" if "star"
  proof -
    from that p2 have pv: "preview st2 = Some CHR ''*''" by simp
    with p2(1) obtain l where l: "line st2 = Some l" by (auto simp: pending_def)
    from pv g have "st3 = st2\<lparr>preview := None\<rparr>" by (auto simp: get_def)
    with l have "preview st3 = None" "line st3 = Some l" by simp_all
    then show ?thesis by (rule read_tag_total)
  qed
  with a b g show ?thesis
    by (auto simp: process_step_def process_step2_unfold split: sum.splits prod.splits)
qed

lemma process_loop_total:
  "pending st \<Longrightarrow>
     process_loop tags methods c left st = Some (process_loop2 tags methods c left st)"
proof (induction tags methods c left st rule: process_loop2.induct)
  case (1 tags methods c left st)
  note t = process_step_total [OF "1.prems", of tags methods c left]
  show ?case
  proof (cases "c = Eof")
    case True
    then show ?thesis
      by (subst process_loop.simps, subst process_loop2.simps) simp
  next
    case False
    show ?thesis
    proof (cases "process_step2 tags methods c left st")
      case (Throw e)
      with False t show ?thesis
        by (subst process_loop.simps, subst process_loop2.simps) simp
    next
      case (Return st1)
      with False t show ?thesis
        by (subst process_loop.simps, subst process_loop2.simps) simp
    next
      case (Next x)
      obtain c2 left2 st1 where x: "x = ((c2, left2), st1)" by (cases x) auto
      from process_step2_preview [OF Next [unfolded x]] have "pending st1"
        by (simp add: pending_def)
      from "1.IH" [OF False Next [unfolded x] refl refl this] False Next x t show ?thesis
        by (subst process_loop.simps, subst process_loop2.simps) simp
    qed
  qed
qed

lemma process_total: "process tags methods st = Some (process2 tags methods st)"
proof -
  obtain c st1 where g: "get False st = (c, st1)" by force
  from get_preview [OF g] have "pending st1" by (simp add: pending_def)
  from process_loop_total [OF this] g show ?thesis
    by (simp add: process_def process2_def)
qed

lemma jsdev_total:
  "jsdev source tags comments =
     (Some (fst (jsdev2 source tags comments)), snd (jsdev2 source tags comments))"
  by (simp add: jsdev_def jsdev2_def process_total Let_def
           split: tags_arg.splits prod.splits sum.splits)


section \<open>Comments that are not expanded\<close>

text \<open>\<open>has_pair x y xs\<close>: somewhere in \<open>xs\<close> the character \<open>x\<close> is immediately followed
  by \<open>y\<close>.\<close>

fun has_pair :: "char \<Rightarrow> char \<Rightarrow> string \<Rightarrow> bool" where
  "has_pair x y (a # b # cs) = ((a = x \<and> b = y) \<or> has_pair x y (b # cs))"
| "has_pair x y _ = False"

abbreviation alnum :: "char \<Rightarrow> bool" where
  "alnum ch \<equiv> is_alphanum (Some ch)"

lemma has_pair_Cons: "has_pair x y (b # cs) \<Longrightarrow> has_pair x y (a # b # cs)"
  by simp

lemma has_pair_append_left: "has_pair x y ys \<Longrightarrow> has_pair x y (xs @ ys)"
proof (induction xs)
  case Nil
  then show ?case by simp
next
  case (Cons a xs)
  then show ?case by (cases "xs @ ys") auto
qed

lemma has_pair_double: "x \<noteq> y \<Longrightarrow> has_pair x y (a # a # zs) = has_pair x y (a # zs)"
  by auto

lemma read_tag_run:
  assumes "ok st" and "rest st = tag @ after" and "list_all alnum tag"
    and "\<not> is_alphanum (head after)"
  shows "\<exists>st'. read_tag t st = Some (t @ tag, head after, st') \<and> rest st' = tl after
               \<and> out st' = out st \<and> ok st' \<and> preview st' = None"
  using assms(1,2,3)
proof (induction tag arbitrary: t st)
  case Nil
  obtain d st1 where g: "get False st = (d, st1)" by force
  from get_rest [OF g Nil.prems(1)] Nil.prems(2) have
    f: "d = head after" "rest st1 = tl after" "out st1 = out st" "ok st1" "preview st1 = None"
    by simp_all
  from g f(1) assms(4) have "read_tag t st = Some (t, head after, st1)"
    by (subst read_tag.simps) simp
  with f show ?case by simp
next
  case (Cons x xs)
  obtain d st1 where g: "get False st = (d, st1)" by force
  from get_rest [OF g Cons.prems(1)] Cons.prems(2) have
    f: "d = Some x" "rest st1 = xs @ after" "out st1 = out st" "ok st1"
    by (simp_all add: head_def)
  from Cons.prems(3) have x: "is_alphanum (Some x)" and xs: "list_all alnum xs" by simp_all
  from Cons.IH [OF f(4,2) xs, of "t @ [x]"] obtain st' where
    r: "read_tag (t @ [x]) st1 = Some ((t @ [x]) @ xs, head after, st')"
    and p: "rest st' = tl after" "out st' = out st1" "ok st'" "preview st' = None"
    by blast
  from g f(1) x r have "read_tag t st = Some (t @ x # xs, head after, st')"
    by (subst read_tag.simps) simp
  with p f(3) show ?case by simp
qed

text \<open>When only tag characters are left in the stream, the tag loop of the first revision
  runs into the sentinel and does not return.\<close>

lemma read_tag_sentinel:
  assumes "ok st" and "list_all alnum (rest st)"
  shows "read_tag t st = None"
proof (cases "read_tag t st")
  case None
  then show ?thesis .
next
  case (Some y)
  have "\<not> (ok st \<and> list_all alnum (rest st))"
  proof (rule read_tag.raw_induct
           [where P = "\<lambda>t st y. \<not> (ok st \<and> list_all alnum (rest st))", OF _ Some], goal_cases)
    case (1 f t st y)
    show ?case
    proof
      assume h: "ok st \<and> list_all alnum (rest st)"
      obtain c st1 where g: "get False st = (c, st1)" by force
      from get_rest [OF g] h have
        f: "c = head (rest st)" "rest st1 = tl (rest st)" "ok st1" by simp_all
      from f(1) h have a: "is_alphanum c"
        by (cases "rest st") (simp_all add: head_def is_alphanum_def)
      from f(2) h have r: "list_all alnum (rest st1)"
        by (cases "rest st") simp_all
      from 1(2) g a
      have "f (t @ (case c of None \<Rightarrow> ''null'' | Some ch \<Rightarrow> [ch])) st1 = Some y"
        by simp
      from 1(1) [OF this] f(3) r show False by simp
    qed
  qed
  with assms show ?thesis by simp
qed

lemma comment_loop_closes:
  assumes "ok st" and "c # rest st = pre @ ''*/'' @ post"
    and "\<not> has_pair CHR ''*'' CHR ''/'' (pre @ ''*'')"
    and "\<not> has_pair CHR ''/'' CHR ''*'' (pre @ ''*'')"
  shows "\<exists>st'. comment_loop (Some c) st = Inr st'
               \<and> moves st (tl (pre @ ''*/'')) (tl (pre @ ''*/'')) st'"
  using assms
proof (induction pre arbitrary: c st)
  case Nil
  obtain d st1 where g: "get True st = (d, st1)" by force
  from Nil.prems(2) have c: "c = CHR ''*''" and r: "rest st = CHR ''/'' # post" by simp_all
  from get_rest [OF g Nil.prems(1)] r have d: "d = Some CHR ''/''" by (simp add: head_def)
  from g c d have "comment_loop (Some c) st = Inr st1"
    by (subst comment_loop.simps) simp
  with moves_get [OF g] r show ?case by auto
next
  case (Cons p ps)
  obtain d st1 where g: "get True st = (d, st1)" by force
  from Cons.prems(2) have c: "c = p" and r: "rest st = ps @ ''*/'' @ post" by simp_all
  then obtain e where e: "rest st = e # tl (ps @ ''*/'' @ post)" "ps @ ''*'' = e # tl (ps @ ''*'')"
    by (cases ps) auto
  from get_rest [OF g Cons.prems(1)] e have d: "d = Some e" and r1: "rest st1 = tl (rest st)"
    and ok1: "ok st1"
    by (simp_all add: head_def)
  from Cons.prems(3,4) e(2) have np: "\<not> (p = CHR ''*'' \<and> e = CHR ''/'')" "\<not> (p = CHR ''/'' \<and> e = CHR ''*'')"
    and n3: "\<not> has_pair CHR ''*'' CHR ''/'' (ps @ ''*'')"
    and n4: "\<not> has_pair CHR ''/'' CHR ''*'' (ps @ ''*'')"
    by (metis append_Cons has_pair.simps(1))+
  from g c d np have l: "comment_loop (Some c) st = comment_loop (Some e) st1"
    by (subst comment_loop.simps) auto
  from e r r1 have "e # rest st1 = ps @ ''*/'' @ post" by simp
  from Cons.IH [OF ok1 this n3 n4] obtain st' where
    s: "comment_loop (Some e) st1 = Inr st'"
    and m: "moves st1 (tl (ps @ ''*/'')) (tl (ps @ ''*/'')) st'"
    by blast
  have "moves st [e] [e] st1" using moves_get [OF g] e(1) by simp
  from moves_trans [OF this m] e have "moves st (tl ((p # ps) @ ''*/'')) (tl ((p # ps) @ ''*/'')) st'"
    by (cases ps) auto
  with l s show ?case by simp
qed


lemma comment_loop_nested:
  assumes "ok st" and "c # rest st = pre @ ''/*'' @ post"
    and "\<not> has_pair CHR ''*'' CHR ''/'' (pre @ ''/'')"
    and "\<not> has_pair CHR ''/'' CHR ''*'' (pre @ ''/'')"
  shows "\<exists>n. comment_loop (Some c) st = Inl (error n ''nested comment.'')"
  using assms
proof (induction pre arbitrary: c st)
  case Nil
  obtain d st1 where g: "get True st = (d, st1)" by force
  from Nil.prems(2) have c: "c = CHR ''/''" and r: "rest st = CHR ''*'' # post" by simp_all
  from get_rest [OF g Nil.prems(1)] r have d: "d = Some CHR ''*''" by (simp add: head_def)
  from g c d have "comment_loop (Some c) st = Inl (error (line_nr st1) ''nested comment.'')"
    by (subst comment_loop.simps) simp
  then show ?case by blast
next
  case (Cons p ps)
  obtain d st1 where g: "get True st = (d, st1)" by force
  from Cons.prems(2) have c: "c = p" and r: "rest st = ps @ ''/*'' @ post" by simp_all
  then obtain e where e: "rest st = e # tl (ps @ ''/*'' @ post)" "ps @ ''/'' = e # tl (ps @ ''/'')"
    by (cases ps) auto
  from get_rest [OF g Cons.prems(1)] e have d: "d = Some e" and r1: "rest st1 = tl (rest st)"
    and ok1: "ok st1"
    by (simp_all add: head_def)
  from Cons.prems(3,4) e(2) have np: "\<not> (p = CHR ''*'' \<and> e = CHR ''/'')" "\<not> (p = CHR ''/'' \<and> e = CHR ''*'')"
    and n3: "\<not> has_pair CHR ''*'' CHR ''/'' (ps @ ''/'')"
    and n4: "\<not> has_pair CHR ''/'' CHR ''*'' (ps @ ''/'')"
    by (metis append_Cons has_pair.simps(1))+
  from g c d np have l: "comment_loop (Some c) st = comment_loop (Some e) st1"
    by (subst comment_loop.simps) auto
  from e r r1 have "e # rest st1 = ps @ ''/*'' @ post" by simp
  from Cons.IH [OF ok1 this n3 n4] l show ?case by simp
qed

lemma comment_loop_unterminated:
  assumes "ok st"
    and "\<not> has_pair CHR ''*'' CHR ''/'' (c # rest st)"
    and "\<not> has_pair CHR ''/'' CHR ''*'' (c # rest st)"
  shows "\<exists>n. comment_loop (Some c) st = Inl (error n ''unterminated comment.'')"
  using assms
proof (induction "length (rest st)" arbitrary: c st rule: less_induct)
  case less
  obtain d st1 where g: "get True st = (d, st1)" by force
  note f = get_rest [OF g less.prems(1)]
  show ?case
  proof (cases "rest st")
    case Nil
    with f have d: "d = None" by (simp add: head_def)
    with g have "comment_loop (Some c) st = comment_loop None st1"
      by (subst comment_loop.simps) simp
    with comment_loop_None [of st1] show ?thesis by auto
  next
    case (Cons e es)
    with f have d: "d = Some e" and r1: "rest st1 = es" and ok1: "ok st1"
      by (simp_all add: head_def)
    from less.prems(2,3) Cons have
      np: "\<not> (c = CHR ''*'' \<and> e = CHR ''/'')" "\<not> (c = CHR ''/'' \<and> e = CHR ''*'')"
      and n3: "\<not> has_pair CHR ''*'' CHR ''/'' (e # rest st1)"
      and n4: "\<not> has_pair CHR ''/'' CHR ''*'' (e # rest st1)"
      using r1 by auto
    from g d np have l: "comment_loop (Some c) st = comment_loop (Some e) st1"
      by (subst comment_loop.simps) auto
    from r1 Cons have "length (rest st1) < length (rest st)" by simp
    from less.hyps [OF this ok1 n3 n4] l show ?thesis by simp
  qed
qed

lemma index_from_present: "tag \<in> set ts \<Longrightarrow> i \<le> index_from ts tag i"
proof (induction ts arbitrary: i)
  case Nil
  then show ?case by simp
next
  case (Cons a ts)
  show ?case
  proof (cases "a = tag")
    case True
    then show ?thesis by simp
  next
    case False
    with Cons.prems have "tag \<in> set ts" by simp
    from Cons.IH [OF this, of "i + 1"] False show ?thesis by simp
  qed
qed

lemma index_from_absent: "tag \<notin> set ts \<Longrightarrow> index_from ts tag i = - 1"
  by (induction ts arbitrary: i) auto

lemma index_of_neg: "(0 \<le> index_of tags tag) = (tag \<in> set tags)"
proof (cases "tag \<in> set tags")
  case True
  with index_from_present [of tag tags 0] show ?thesis by (simp add: index_of_def)
next
  case False
  with index_from_absent [of tag tags 0] show ?thesis by (simp add: index_of_def)
qed


lemma rest_unget:
  "preview st = None \<Longrightarrow>
     rest (unget c st) = (case c of None \<Rightarrow> [] | Some x \<Rightarrow> [x]) @ rest st
     \<and> out (unget c st) = out st \<and> ok (unget c st) = ok st"
  by (simp add: unget_def rest_def out_def ok_def)

lemma process_step_comment:
  assumes "ok st" and "rest st = CHR ''*'' # tag @ after" and "list_all alnum tag"
    and "\<not> is_alphanum (head after)" and "tag = [] \<or> tag \<notin> set tags"
  shows "\<exists>st5. ok st5 \<and> rest st5 = after \<and> out st5 = out st @ ''/*'' @ tag
           \<and> process_step tags methods (Ch CHR ''/'') left st =
               (case comment_loop (head after) st5 of
                  Inl e \<Rightarrow> Some (Throw e)
                | Inr st6 \<Rightarrow>
                    (case get False st6 of (c2, st7) \<Rightarrow> Some (Next ((of_get c2, left), st7))))"
proof -
  obtain slash st1 where a: "peek_is CHR ''/'' st = (slash, st1)" by force
  from peek_is_rest [OF a assms(1)] assms(2) have
    f1: "\<not> slash" "ok st1" "rest st1 = rest st" "out st1 = out st"
    by (simp_all add: head_def)
  obtain star st2 where b: "peek_is CHR ''*'' st1 = (star, st2)" by force
  from peek_is_rest [OF b f1(2)] f1(3) assms(2) have "star" by (simp add: head_def)
  with b have b': "peek_is CHR ''*'' st1 = (True, st2)" by simp
  obtain c0 st3 where g: "get False st2 = (c0, st3)" by force
  from peek_is_True_get_rest [OF b' g f1(2)] f1 assms(2) have
    f3: "ok st3" "rest st3 = tag @ after" "out st3 = out st"
    by simp_all
  from read_tag_run [OF f3(1,2) assms(3,4), of "[]"] f3(3) obtain st4 where
    t: "read_tag [] st3 = Some (tag, head after, st4)"
    and f4: "rest st4 = tl after" "out st4 = out st" "ok st4" "preview st4 = None"
    by auto
  let ?st5 = "emit tag (emit ''/*'' (unget (head after) st4))"
  from assms(4) have ne: "after \<noteq> []" by (auto simp: head_def is_alphanum_def)
  from rest_unget [OF f4(4), of "head after"] f4 ne have
    f5: "ok ?st5" "rest ?st5 = after" "out ?st5 = out st @ ''/*'' @ tag"
    by (cases after; simp add: head_def)+
  from assms(5) have i: "\<not> 0 \<le> (if tag = [] then - 1 else index_of tags tag)"
    by (auto simp: index_of_neg)
  have "process_step tags methods (Ch CHR ''/'') left st =
               (case comment_loop (head after) ?st5 of
                  Inl e \<Rightarrow> Some (Throw e)
                | Inr st6 \<Rightarrow>
                    (case get False st6 of (c2, st7) \<Rightarrow> Some (Next ((of_get c2, left), st7))))"
    using a f1(1) b' g t i
    by (simp add: process_step_def is_quote_def cur_char_def)
  with f5 show ?thesis by blast
qed

section \<open>Tag configuration\<close>

text \<open>A declaration is well formed when the pattern matches it; stripping the method
  keeps what stands before the colon.\<close>

definition well_formed :: "string \<Rightarrow> bool" where
  "well_formed v = (tagx_exec v \<noteq> None)"

definition strip_method :: "string \<Rightarrow> string" where
  "strip_method v = takeWhile (\<lambda>ch. ch \<noteq> CHR '':'') v"

lemma line_nr_header [simp]: "line_nr (header comments st) = line_nr st"
proof -
  have "line_nr (fold (\<lambda>v. emit (''// '' @ v @ [NL])) vs st) = line_nr st" for vs
    by (induction vs arbitrary: st) simp_all
  then show ?thesis by (simp add: header_def split: comments_arg.splits)
qed

lemma error_bad_tag: "error (- 1) v = ''JSDev: bad tag '' @ v"
  by (simp add: error_def)

lemma tags_map_bad:
  "\<exists>v\<in>set vs. tagx_exec v = None \<Longrightarrow>
     \<exists>v\<in>set vs. tagx_exec v = None \<and> fst (tags_map nr seen vs ms) = Inl (error nr v)"
  by (induction vs arbitrary: seen ms) (auto split: option.splits)

lemma not_alphanum_colon: "\<not> is_alphanum (Some CHR '':'')"
  by (simp add: is_alphanum_def)

lemma takeWhile_colon_alnum:
  "list_all (\<lambda>ch. is_alphanum (Some ch)) t \<Longrightarrow> takeWhile (\<lambda>ch. ch \<noteq> CHR '':'') (t @ r) = t @ takeWhile (\<lambda>ch. ch \<noteq> CHR '':'') r"
  using not_alphanum_colon by (induction t) auto

lemma tagx_exec_Some:
  assumes "tagx_exec v = Some (t, m)"
  shows "(case m of Some _ \<Rightarrow> t | None \<Rightarrow> v) = strip_method v"
proof -
  let ?P = "\<lambda>ch. is_alphanum (Some ch)"
  have v: "takeWhile ?P v @ dropWhile ?P v = v" by simp
  have a: "list_all ?P (takeWhile ?P v)" by (simp add: list_all_iff) (meson set_takeWhileD)
  from assms have t: "t = takeWhile ?P v"
    by (auto simp: tagx_exec_def Let_def split: if_splits list.splits)
  show ?thesis
  proof (cases m)
    case None
    with assms have "dropWhile ?P v = []"
      by (auto simp: tagx_exec_def Let_def split: if_splits list.splits)
    with v have "takeWhile ?P v = v" by simp
    with a have "list_all ?P v" by simp
    then have "\<forall>x\<in>set v. x \<noteq> CHR '':''"
      using not_alphanum_colon by (auto simp: list_all_iff)
    then have eq: "takeWhile (\<lambda>ch. ch \<noteq> CHR '':'') v = v"
      by (simp add: takeWhile_eq_all_conv)
    show ?thesis
      by (simp only: None strip_method_def eq option.case)
  next
    case (Some m')
    with assms have "dropWhile ?P v = CHR '':'' # m'"
      by (auto simp: tagx_exec_def Let_def split: if_splits list.splits)
    with v have "t @ CHR '':'' # m' = v" using t by simp
    with a t takeWhile_colon_alnum [of t "CHR '':'' # m'"] Some show ?thesis
      by (simp add: strip_method_def)
  qed
qed

lemma tags_map_array:
  "snd (tags_map nr seen vs ms) =
     seen @ map strip_method (takeWhile well_formed vs) @ dropWhile well_formed vs"
proof (induction vs arbitrary: seen ms)
  case Nil
  show ?case by simp
next
  case (Cons v vs)
  show ?case
  proof (cases "tagx_exec v")
    case None
    then show ?thesis by (simp add: well_formed_def)
  next
    case (Some tm)
    obtain t m where tm: "tm = (t, m)" by force
    from Some tm tagx_exec_Some [of v t m] Cons.IH show ?thesis
      by (simp add: well_formed_def)
  qed
qed


section \<open>Text without block comments\<close>

text \<open>The errors that end a literal at the end of the input.\<close>

definition literal_error :: "string \<Rightarrow> bool" where
  "literal_error e =
     ((\<exists>n. e = error n ''unterminated string literal.'')
      \<or> (\<exists>n. e = error n ''unterminated regexp literal.'')
      \<or> (\<exists>n. e = error n ''unterminated set in Regular Expression literal.''))"

lemma string_loop_error:
  "string_loop q False w st = Inl e \<Longrightarrow> e = error w ''unterminated string literal.''"
proof (induction "remaining st" arbitrary: st rule: less_induct)
  case less
  obtain c st1 where g1: "get True st = (c, st1)" by force
  obtain c2 st2 where g2: "(if c = Some BSL then get True st1 else (c, st1)) = (c2, st2)"
    by force
  from less.prems g1 g2
  have "(c2 = None \<and> e = error w ''unterminated string literal.'')
        \<or> (c2 \<noteq> None \<and> string_loop q False w st2 = Inl e)"
    by (subst (asm) string_loop.simps) (auto split: if_splits)
  then show ?case
  proof
    assume "c2 = None \<and> e = error w ''unterminated string literal.''"
    then show ?thesis by simp
  next
    assume a: "c2 \<noteq> None \<and> string_loop q False w st2 = Inl e"
    with g1 g2 have "remaining st2 < remaining st"
      by (auto split: if_splits dest!: remaining_get)
    from less.hyps [OF this] a show ?thesis by simp
  qed
qed

lemma regexp_set_error:
  "regexp_set False st = Inl e \<Longrightarrow>
     \<exists>n. e = error n ''unterminated set in Regular Expression literal.''"
proof (induction "remaining st" arbitrary: st rule: less_induct)
  case less
  obtain c st1 where g1: "get True st = (c, st1)" by force
  obtain c2 st2 where g2: "(if c = Some BSL then get True st1 else (c, st1)) = (c2, st2)"
    by force
  from less.prems g1 g2
  have "(c2 = None \<and> e = error (line_nr st2) ''unterminated set in Regular Expression literal.'')
        \<or> (c2 \<noteq> None \<and> regexp_set False st2 = Inl e)"
    by (subst (asm) regexp_set.simps) (auto split: if_splits)
  then show ?case
  proof
    assume "c2 = None \<and> e = error (line_nr st2) ''unterminated set in Regular Expression literal.''"
    then show ?thesis by blast
  next
    assume a: "c2 \<noteq> None \<and> regexp_set False st2 = Inl e"
    with g1 g2 have "remaining st2 < remaining st"
      by (auto split: if_splits dest!: remaining_get)
    from less.hyps [OF this] a show ?thesis by simp
  qed
qed

lemma regexp_loop_error:
  "regexp_loop False w st = Inl e \<Longrightarrow> literal_error e"
proof (induction "remaining st" arbitrary: st rule: less_induct)
  case less
  obtain c st1 where g1: "get True st = (c, st1)" by force
  show ?case
  proof (cases "regexp_chain False c st1")
    case (Throw e')
    with less.prems g1 have "e' = e" by (subst (asm) regexp_loop.simps) simp
    with Throw have "regexp_set False st1 = Inl e"
      by (auto simp: regexp_chain_def split: if_splits sum.splits)
    from regexp_set_error [OF this] show ?thesis by (auto simp: literal_error_def)
  next
    case (Return st2)
    with less.prems g1 show ?thesis by (subst (asm) regexp_loop.simps) simp
  next
    case (Next x)
    obtain c2 st2 where x: "x = (c2, st2)" by force
    from less.prems g1 Next x
    have "(c2 = None \<and> e = error w ''unterminated regexp literal.'')
          \<or> (c2 \<noteq> None \<and> regexp_loop False w st2 = Inl e)"
      by (subst (asm) regexp_loop.simps) (auto split: if_splits)
    then show ?thesis
    proof
      assume "c2 = None \<and> e = error w ''unterminated regexp literal.''"
      then show ?thesis by (auto simp: literal_error_def)
    next
      assume a: "c2 \<noteq> None \<and> regexp_loop False w st2 = Inl e"
      with g1 regexp_chain_Next [OF Next [unfolded x]] have "remaining st2 < remaining st"
        by (auto dest!: remaining_get)
      from less.hyps [OF this] a show ?thesis by simp
    qed
  qed
qed

lemma line_comment_echoes: "echoes st (line_comment st)"
proof (induction "remaining st" arbitrary: st rule: less_induct)
  case less
  obtain c st1 where g: "get True st = (c, st1)" by force
  note r = remaining_get [OF g]
  have s1: "echoes st st1" using g by (rule echoes_get)
  show ?case
  proof (cases "c = Some NL \<or> c = Some CR \<or> c = None")
    case True
    with g s1 show ?thesis by (subst line_comment.simps) auto
  next
    case False
    with r have lt: "remaining st1 < remaining st" by auto
    from g False have "line_comment st = line_comment st1"
      by (subst line_comment.simps) auto
    with echoes_trans [OF s1 less.hyps [OF lt]] show ?thesis by simp
  qed
qed


text \<open>The character that the dispatcher holds and has not yet written.\<close>

definition cur_chars :: "cur \<Rightarrow> string" where
  "cur_chars c = (case c of Ch x \<Rightarrow> [x] | _ \<Rightarrow> [])"

lemma has_pair_suffix: "\<not> has_pair x y (zs @ ys) \<Longrightarrow> \<not> has_pair x y ys"
  using has_pair_append_left by blast

lemma get_pending:
  assumes "get False st = (c, st')" and "ok st"
  shows "ok st' \<and> rest st = cur_chars (of_get c) @ rest st' \<and> out st' = out st
         \<and> (of_get c = Eof \<longrightarrow> rest st' = [])"
  using get_rest [OF assms]
  by (cases "rest st") (auto simp: head_def cur_chars_def of_get_def)

lemma echoes_get_pending:
  assumes "echoes st st1" and "get False st1 = (c, st2)" and "ok st"
  shows "ok st2 \<and> (\<exists>zs. rest st = zs @ cur_chars (of_get c) @ rest st2 \<and> out st2 = out st @ zs)
         \<and> (of_get c = Eof \<longrightarrow> rest st2 = [])"
proof -
  from assms(1) obtain zs where m: "moves st zs zs st1" unfolding echoes_def by blast
  with assms(3) have f: "ok st1" "rest st = zs @ rest st1" "out st1 = out st @ zs"
    by (simp_all add: moves_def)
  from get_pending [OF assms(2) f(1)] f show ?thesis by auto
qed

lemma process_step2_plain:
  assumes "ok st" and "c \<noteq> Eof"
    and "\<not> has_pair CHR ''/'' CHR ''*'' (cur_chars c @ rest st)"
  shows "case process_step2 tags methods c left st of
           Throw e \<Rightarrow> literal_error e
         | Return st' \<Rightarrow> False
         | Next ((c2, left2), st2) \<Rightarrow>
             ok st2 \<and> (c2 = Eof \<longrightarrow> rest st2 = [])
             \<and> (\<exists>zs. cur_chars c @ rest st = zs @ cur_chars c2 @ rest st2
                      \<and> out st2 = out st @ zs)"
proof (cases "is_quote (cur_char c)")
  case True
  then obtain q where q: "c = Ch q" by (cases c) (auto simp: is_quote_def cur_char_def)
  let ?st0 = "emit_char (Some q) st"
  have e0: "moves st [] [q] ?st0" by (simp add: moves_def emit_char_def)
  show ?thesis
  proof (cases "string q False ?st0")
    case (Inl e)
    then have "e = error (line_nr ?st0) ''unterminated string literal.''"
      unfolding string_def by (rule string_loop_error)
    with Inl True q show ?thesis
      by (auto simp: process_step2_unfold cur_char_def literal_error_def)
  next
    case (Inr st1)
    from string_echoes [OF Inr] obtain zs where "moves ?st0 zs zs st1"
      unfolding echoes_def by blast
    from moves_trans [OF e0 this] assms(1) have
      "ok st1" "rest st = zs @ rest st1" "out st1 = out st @ q # zs"
      by (simp_all add: moves_def)
    with Inr True q show ?thesis
      by (auto simp: process_step2_unfold cur_char_def cur_chars_def)
  qed
next
  case nq: False
  show ?thesis
  proof (cases "c = Ch CHR ''/''")
    case False
    obtain c2 st1 where g: "get False (emit_char (cur_char c) st) = (c2, st1)" by force
    have "moves st [] (cur_chars c) (emit_char (cur_char c) st)"
      by (cases c) (simp_all add: moves_def cur_char_def cur_chars_def emit_char_def)
    with assms(1) have f: "ok (emit_char (cur_char c) st)"
      "out (emit_char (cur_char c) st) = out st @ cur_chars c" by (simp_all add: moves_def)
    from get_pending [OF g f(1)] f nq False g show ?thesis
      by (auto simp: process_step2_unfold)
  next
    case sl: True
    obtain slash st1 where a: "peek_is CHR ''/'' st = (slash, st1)" by force
    note fa = peek_is_rest [OF a assms(1)]
    show ?thesis
    proof (cases slash)
      case True
      let ?st2 = "line_comment (emit ''/'' st1)"
      obtain c2 st3 where g: "get False ?st2 = (c2, st3)" by force
      have "echoes (emit ''/'' st1) ?st2" by (rule line_comment_echoes)
      from echoes_get_pending [OF this g] fa have
        "ok st3" "of_get c2 = Eof \<longrightarrow> rest st3 = []"
        "\<exists>zs. rest st = zs @ cur_chars (of_get c2) @ rest st3 \<and> out st3 = out st @ ''/'' @ zs"
        by auto
      with nq sl a True g show ?thesis
        by (auto simp: process_step2_unfold cur_chars_def)
    next
      case ns: False
      obtain star st2 where b: "peek_is CHR ''*'' st1 = (star, st2)" by force
      from fa have ok1: "ok st1" by simp
      note fb = peek_is_rest [OF b ok1]
      from assms(3) sl have "head (rest st) \<noteq> Some CHR ''*''"
        by (cases "rest st") (auto simp: cur_chars_def head_def)
      with fa fb have nstar: "\<not> star" by simp
      let ?st3 = "emit ''/'' st2"
      have f3: "ok ?st3" "rest ?st3 = rest st" "out ?st3 = out st @ ''/''"
        using fa fb by simp_all
      show ?thesis
      proof (cases "if pre_regexp left then regexp False ?st3 else Inr ?st3")
        case (Inl e)
        then have "regexp_loop False (line_nr ?st3) ?st3 = Inl e"
          by (auto simp: regexp_def split: if_splits)
        from regexp_loop_error [OF this] Inl nq sl a ns b nstar show ?thesis
          by (simp add: process_step2_unfold)
      next
        case (Inr st4)
        then have e: "echoes ?st3 st4"
          by (auto split: if_splits intro: regexp_echoes)
        obtain c2 st5 where g: "get False st4 = (c2, st5)" by force
        from echoes_get_pending [OF e g f3(1)] f3 have
          "ok st5" "of_get c2 = Eof \<longrightarrow> rest st5 = []"
          "\<exists>zs. rest st = zs @ cur_chars (of_get c2) @ rest st5 \<and> out st5 = out st @ ''/'' @ zs"
          by auto
        with Inr nq sl a ns b nstar g show ?thesis
          by (auto simp: process_step2_unfold cur_chars_def)
      qed
    qed
  qed
qed


lemma process_loop2_plain:
  assumes "ok st" and "c = Eof \<longrightarrow> rest st = []"
    and "\<not> has_pair CHR ''/'' CHR ''*'' (cur_chars c @ rest st)"
  shows "case process_loop2 tags methods c left st of
           Inl e \<Rightarrow> literal_error e
         | Inr st' \<Rightarrow> out st' = out st @ cur_chars c @ rest st"
  using assms
proof (induction tags methods c left st rule: process_loop2.induct)
  case (1 tags methods c left st)
  show ?case
  proof (cases "c = Eof")
    case True
    with "1.prems" show ?thesis
      by (subst process_loop2.simps) (simp add: cur_chars_def)
  next
    case False
    note ps = process_step2_plain [OF "1.prems"(1) False "1.prems"(3), of tags methods left]
    show ?thesis
    proof (cases "process_step2 tags methods c left st")
      case (Throw e)
      with ps False show ?thesis by (subst process_loop2.simps) simp
    next
      case (Return st1)
      with ps show ?thesis by simp
    next
      case (Next x)
      obtain c2 left2 st2 where x: "x = ((c2, left2), st2)" by (cases x) auto
      from ps Next x obtain zs where
        f: "ok st2" "c2 = Eof \<longrightarrow> rest st2 = []"
           "cur_chars c @ rest st = zs @ cur_chars c2 @ rest st2" "out st2 = out st @ zs"
        by auto
      from "1.prems"(3) f(3) have n: "\<not> has_pair CHR ''/'' CHR ''*'' (cur_chars c2 @ rest st2)"
        using has_pair_suffix by metis
      note IH = "1.IH" [OF False Next [unfolded x] refl refl f(1,2) n]
      have e: "process_loop2 tags methods c left st = process_loop2 tags methods c2 left2 st2"
        using False Next x by (subst process_loop2.simps) simp
      from IH f(3,4) show ?thesis unfolding e by (auto split: sum.splits)
    qed
  qed
qed

text \<open>The lines that \<^verbatim>\<open>jsdev\<close> scans; \<^const>\<open>stream_of\<close> of them is the text that
  the stream delivers: every line followed by a line feed.\<close>

definition source_lines :: "source_arg \<Rightarrow> string list" where
  "source_lines source = (case source of SourceString s \<Rightarrow> split_lines s | SourceArray ls \<Rightarrow> ls)"

lemma tags_map_ok:
  "list_all well_formed vs \<Longrightarrow> \<exists>ms. fst (tags_map nr seen vs methods) = Inr ms"
  by (induction vs arbitrary: seen methods) (auto simp: well_formed_def)

lemma process2_plain:
  assumes "\<not> has_pair CHR ''/'' CHR ''*'' (stream_of ls)"
  shows "case process2 tags methods (init\<lparr>lines := ls\<rparr>) of
           Inl e \<Rightarrow> literal_error e
         | Inr st' \<Rightarrow> out st' = stream_of ls"
proof -
  let ?st0 = "init\<lparr>lines := ls\<rparr>"
  have f0: "ok ?st0" "rest ?st0 = stream_of ls" "out ?st0 = []"
    by (simp_all add: init_def ok_def rest_def out_def)
  obtain c st1 where g: "get False ?st0 = (c, st1)" by force
  from get_pending [OF g f0(1)] f0 have
    f1: "ok st1" "stream_of ls = cur_chars (of_get c) @ rest st1" "out st1 = []"
        "of_get c = Eof \<longrightarrow> rest st1 = []"
    by simp_all
  from assms f1(2) have "\<not> has_pair CHR ''/'' CHR ''*'' (cur_chars (of_get c) @ rest st1)" by simp
  from process_loop2_plain [OF f1(1,4) this, of tags methods None] f1 g show ?thesis
    by (auto simp: process2_def split: sum.splits)
qed

section \<open>Converting the output again\<close>

text \<open>The output of a conversion, split into lines again, is the lines of the source and
  one more, empty line. \<open>ext st\<close> is the state \<open>st\<close> with that line added to
  \<^verbatim>\<open>lines\<close>: as long as the stream of \<open>st\<close> delivers characters, the stream of
  \<open>ext st\<close> delivers the same ones. A state is live when \<^verbatim>\<open>get\<close> has not yet run off
  the end of \<^verbatim>\<open>lines\<close>, and spent when it has just done so.\<close>

definition ext :: "state \<Rightarrow> state" where
  "ext st = st\<lparr>lines := lines st @ [[]]\<rparr>"

definition live :: "state \<Rightarrow> bool" where
  "live st = (line_nr st < int (length (lines st)))"

definition spent :: "state \<Rightarrow> bool" where
  "spent st = (preview st = None \<and> line st = None \<and> line_nr st = int (length (lines st)))"

lemma ext_emit [simp]: "ext (emit s st) = emit s (ext st)"
  by (simp add: ext_def emit_def)

lemma ext_emit_char [simp]: "ext (emit_char c st) = emit_char c (ext st)"
  by (simp add: emit_char_def split: option.splits)

lemma live_emit [simp]: "live (emit s st) = live st"
  by (simp add: live_def)

lemma live_emit_char [simp]: "live (emit_char c st) = live st"
  by (simp add: live_def)

lemma ext_fields [simp]:
  "line_nr (ext st) = line_nr st" "preview (ext st) = preview st" "line (ext st) = line st"
  "lines (ext st) = lines st @ [[]]"
  by (simp_all add: ext_def)

lemma get_False_ext:
  assumes "get False st = (Some c, st')"
  shows "get False (ext st) = (Some c, ext st') \<and> (live st \<longrightarrow> live st')"
proof (cases "preview st")
  case (Some p)
  with assms show ?thesis by (auto simp: get_def ext_def live_def)
next
  case None
  show ?thesis
  proof (cases "line st")
    case (Some l)
    with None assms show ?thesis by (cases l) (auto simp: get_def ext_def live_def)
  next
    case nl: None
    let ?n = "line_nr st + 1"
    from assms None nl obtain l where l: "lines_at (lines st) ?n = Some l"
      by (cases "lines_at (lines st) ?n") (auto simp: get_def take_char_def)
    then have n: "0 \<le> ?n" "nat ?n < length (lines st)"
      by (auto simp: lines_at_def split: if_splits)
    then have l': "lines_at (lines st @ [[]]) ?n = Some l"
      using l by (auto simp: lines_at_def nth_append)
    from assms None nl l l' n show ?thesis
      by (cases l) (auto simp: get_def take_char_def ext_def live_def)
  qed
qed

lemma get_ext:
  assumes "get e st = (Some c, st')"
  shows "get e (ext st) = (Some c, ext st') \<and> (live st \<longrightarrow> live st')"
proof -
  from get_echo [OF assms] obtain st1 where
    g: "get False st = (Some c, st1)" and s: "st' = (if e then emit_char (Some c) st1 else st1)"
    by blast
  from get_False_ext [OF g] s show ?thesis
    by (auto simp: get_def split: prod.splits)
qed

lemma get_final:
  assumes "get False st = (None, st')" and "ok st" and "live st"
  shows "get False (ext st) = (Some NL, ext st') \<and> spent st'"
proof -
  let ?n = "line_nr st + 1"
  from assms(1) have p: "preview st = None" "line st = None" "lines_at (lines st) ?n = None"
    by (auto simp: get_def take_char_def split: option.splits list.splits)
  from assms(2,3) p(3) have n: "?n = int (length (lines st))"
    by (auto simp: lines_at_def ok_def live_def split: if_splits)
  then have "lines_at (lines st @ [[]]) ?n = Some []"
    by (simp add: lines_at_def)
  with assms(1) p n show ?thesis
    by (auto simp: get_def take_char_def ext_def spent_def)
qed

lemma peek_ext:
  assumes "peek st = (Some c, st')"
  shows "peek (ext st) = (Some c, ext st') \<and> (live st \<longrightarrow> live st')"
proof (cases "preview st")
  case (Some p)
  with assms show ?thesis by (auto simp: peek_def)
next
  case None
  obtain d st1 where g: "get False st = (d, st1)" by force
  with None assms have d: "d = Some c" and s: "st' = st1\<lparr>preview := Some c\<rparr>"
    by (auto simp: peek_def)
  from get_False_ext [OF g [unfolded d]] None s show ?thesis
    by (auto simp: peek_def ext_def live_def)
qed

lemma peek_is_ext:
  assumes "peek_is a st = (b, st')" and "ok st" and "rest st \<noteq> []"
  shows "peek_is a (ext st) = (b, ext st') \<and> (live st \<longrightarrow> live st')"
proof -
  obtain c st1 where p: "peek st = (c, st1)" by force
  from peek_rest [OF p assms(2)] assms(3) obtain x where "c = Some x"
    by (cases "rest st") (auto simp: head_def)
  with peek_ext [of st x st1] p assms(1) show ?thesis
    by (auto simp: peek_is_def)
qed


lemma string_loop_ext:
  "string_loop q False w st = Inr st' \<Longrightarrow>
     string_loop q False w (ext st) = Inr (ext st') \<and> (live st \<longrightarrow> live st')"
proof (induction "remaining st" arbitrary: st rule: less_induct)
  case less
  obtain c st1 where g1: "get True st = (c, st1)" by force
  from less.prems g1 have "c \<noteq> None"
    by (subst (asm) string_loop.simps) (auto split: if_splits)
  then obtain x where c: "c = Some x" by auto
  note e1 = get_ext [OF g1 [unfolded c]]
  show ?case
  proof (cases "x = q")
    case True
    with less.prems g1 c have "st' = st1" by (subst (asm) string_loop.simps) simp
    with e1 True show ?thesis by (subst string_loop.simps) simp
  next
    case nq: False
    obtain c2 st2 where g2: "(if x = BSL then get True st1 else (Some x, st1)) = (c2, st2)"
      by force
    from less.prems g1 c nq g2 have c2: "c2 \<noteq> None" and r: "string_loop q False w st2 = Inr st'"
      by (subst (asm) string_loop.simps; auto split: if_splits)+
    then obtain y where y: "c2 = Some y" by auto
    have e2: "(if x = BSL then get True (ext st1) else (Some x, ext st1)) = (Some y, ext st2)
              \<and> (live st1 \<longrightarrow> live st2)"
      using g2 y get_ext [of True st1 y st2] by (auto split: if_splits)
    from g1 g2 c y have "remaining st2 < remaining st"
      by (auto split: if_splits dest!: remaining_get)
    from less.hyps [OF this r] e1 e2 nq show ?thesis
      by (subst string_loop.simps) simp
  qed
qed

lemma regexp_set_ext:
  "regexp_set False st = Inr st' \<Longrightarrow>
     regexp_set False (ext st) = Inr (ext st') \<and> (live st \<longrightarrow> live st')"
proof (induction "remaining st" arbitrary: st rule: less_induct)
  case less
  obtain c st1 where g1: "get True st = (c, st1)" by force
  from less.prems g1 have "c \<noteq> None"
    by (subst (asm) regexp_set.simps) (auto split: if_splits)
  then obtain x where c: "c = Some x" by auto
  note e1 = get_ext [OF g1 [unfolded c]]
  show ?case
  proof (cases "x = CHR '']''")
    case True
    with less.prems g1 c have "st' = st1" by (subst (asm) regexp_set.simps) simp
    with e1 True show ?thesis by (subst regexp_set.simps) simp
  next
    case nq: False
    obtain c2 st2 where g2: "(if x = BSL then get True st1 else (Some x, st1)) = (c2, st2)"
      by force
    from less.prems g1 c nq g2 have c2: "c2 \<noteq> None" and r: "regexp_set False st2 = Inr st'"
      by (subst (asm) regexp_set.simps; auto split: if_splits)+
    then obtain y where y: "c2 = Some y" by auto
    have e2: "(if x = BSL then get True (ext st1) else (Some x, ext st1)) = (Some y, ext st2)
              \<and> (live st1 \<longrightarrow> live st2)"
      using g2 y get_ext [of True st1 y st2] by (auto split: if_splits)
    from g1 g2 c y have "remaining st2 < remaining st"
      by (auto split: if_splits dest!: remaining_get)
    from less.hyps [OF this r] e1 e2 nq show ?thesis
      by (subst regexp_set.simps) simp
  qed
qed

lemma regexp_loop_ext:
  "regexp_loop False w st = Inr st' \<Longrightarrow>
     regexp_loop False w (ext st) = Inr (ext st') \<and> (live st \<longrightarrow> live st')"
proof (induction "remaining st" arbitrary: st rule: less_induct)
  case less
  obtain c st1 where g1: "get True st = (c, st1)" by force
  have "c \<noteq> None"
  proof
    assume "c = None"
    with less.prems g1 show False
      by (subst (asm) regexp_loop.simps) (simp add: regexp_chain_def)
  qed
  then obtain x where c: "c = Some x" by auto
  note e1 = get_ext [OF g1 [unfolded c]]
  show ?case
  proof (cases "regexp_chain False (Some x) st1")
    case (Throw e)
    with less.prems g1 c show ?thesis by (subst (asm) regexp_loop.simps) simp
  next
    case (Return st2)
    with less.prems g1 c have s: "st' = st2" by (subst (asm) regexp_loop.simps) simp
    from Return have "x = CHR ''/''" "st2 = st1"
      by (auto simp: regexp_chain_def split: if_splits sum.splits)
    then have "regexp_chain False (Some x) (ext st1) = Return (ext st1)"
      by (simp add: regexp_chain_def)
    with e1 s \<open>st2 = st1\<close> show ?thesis by (subst regexp_loop.simps) simp
  next
    case (Next y)
    obtain c2 st2 where y: "y = (c2, st2)" by force
    from less.prems g1 c Next y have c2: "c2 \<noteq> None" and r: "regexp_loop False w st2 = Inr st'"
      by (subst (asm) regexp_loop.simps; auto split: if_splits)+
    then obtain z where z: "c2 = Some z" by auto
    have e2: "regexp_chain False (Some x) (ext st1) = Next (Some z, ext st2)
              \<and> (live st1 \<longrightarrow> live st2)"
      using Next y z regexp_set_ext [of st1 st2] get_ext [of True st1 z st2]
      by (auto simp: regexp_chain_def split: if_splits sum.splits)
    from g1 c regexp_chain_Next [OF Next [unfolded y]] have "remaining st2 < remaining st"
      by (auto dest!: remaining_get)
    from less.hyps [OF this r] e1 e2 show ?thesis
      by (subst regexp_loop.simps) simp
  qed
qed

lemma line_comment_ext:
  assumes "ok st" and "rest st \<noteq> []" and "last (rest st) = NL"
  shows "line_comment (ext st) = ext (line_comment st) \<and> (live st \<longrightarrow> live (line_comment st))"
  using assms
proof (induction "remaining st" arbitrary: st rule: less_induct)
  case less
  obtain c st1 where g: "get True st = (c, st1)" by force
  note f = get_rest [OF g less.prems(1)]
  with less.prems(2) obtain x where c: "c = Some x" and r: "rest st = x # rest st1"
    by (cases "rest st") (auto simp: head_def)
  note e1 = get_ext [OF g [unfolded c]]
  show ?case
  proof (cases "x = NL \<or> x = CR")
    case True
    with g c have "line_comment st = st1" by (subst line_comment.simps) auto
    moreover from True e1 have "line_comment (ext st) = ext st1"
      by (subst line_comment.simps) auto
    ultimately show ?thesis using e1 by simp
  next
    case False
    with less.prems(3) r have ne: "rest st1 \<noteq> []" and l: "last (rest st1) = NL"
      by (cases "rest st1"; auto)+
    from remaining_get [OF g] c have lt: "remaining st1 < remaining st" by simp
    from f have ok1: "ok st1" by simp
    from g c False have "line_comment st = line_comment st1"
      by (subst line_comment.simps) auto
    moreover from False e1 have "line_comment (ext st) = line_comment (ext st1)"
      by (subst line_comment.simps) auto
    ultimately show ?thesis using less.hyps [OF lt ok1 ne l] e1 by simp
  qed
qed


lemma get_pending_ext:
  assumes "get False st = (c, st')" and "ok st" and "live st"
  shows "if of_get c = Eof then get False (ext st) = (Some NL, ext st') \<and> spent st'
         else get False (ext st) = (c, ext st') \<and> live st'"
proof (cases c)
  case None
  with get_final [OF assms(1) [unfolded None] assms(2,3)] show ?thesis
    by (simp add: of_get_def)
next
  case (Some x)
  with get_ext [OF assms(1) [unfolded Some]] assms(3) show ?thesis
    by (simp add: of_get_def)
qed

lemma process_step2_ext:
  assumes "process_step2 tags methods c left st = Next ((c2, l2), st2)"
    and "ok st" and "live st" and "c \<noteq> Eof"
    and "\<not> has_pair CHR ''/'' CHR ''*'' (cur_chars c @ rest st)"
    and "cur_chars c @ rest st \<noteq> [] \<longrightarrow> last (cur_chars c @ rest st) = NL"
  shows "if c2 = Eof
         then process_step2 tags methods c left (ext st) = Next ((Ch NL, l2), ext st2) \<and> spent st2
         else process_step2 tags methods c left (ext st) = Next ((c2, l2), ext st2) \<and> live st2"
proof (cases "is_quote (cur_char c)")
  case True
  then obtain q where q: "c = Ch q" by (cases c) (auto simp: is_quote_def cur_char_def)
  let ?st0 = "emit_char (Some q) st"
  from assms(1) True q have s: "string q False ?st0 = Inr st2" and c2: "c2 = Zero" "l2 = left"
    by (auto simp: process_step2_unfold cur_char_def split: sum.splits)
  from s have "string_loop q False (line_nr ?st0) ?st0 = Inr st2" by (simp add: string_def)
  from string_loop_ext [OF this] assms(3)
  have "string q False (emit_char (Some q) (ext st)) = Inr (ext st2)" "live st2"
    by (simp_all add: string_def)
  with True q c2 show ?thesis
    by (simp add: process_step2_unfold cur_char_def)
next
  case nq: False
  show ?thesis
  proof (cases "c = Ch CHR ''/''")
    case False
    let ?st0 = "emit_char (cur_char c) st"
    obtain d st1 where g: "get False ?st0 = (d, st1)" by force
    from assms(1) nq False g have e: "c2 = of_get d" "st2 = st1"
      "l2 = (if gt_space (cur_char c) then cur_char c else left)"
      by (auto simp: process_step2_unfold of_get_def)
    from assms(2,3) have "ok ?st0" "live ?st0" by simp_all
    from get_pending_ext [OF g this] e nq False show ?thesis
      by (auto simp: process_step2_unfold of_get_def)
  next
    case sl: True
    with assms(6) have ne: "rest st \<noteq> []" and l: "last (rest st) = NL"
      by (auto simp: cur_chars_def split: if_splits)
    obtain slash st1 where a: "peek_is CHR ''/'' st = (slash, st1)" by force
    note fa = peek_is_rest [OF a assms(2)]
    note ea = peek_is_ext [OF a assms(2) ne]
    from fa ea assms(3) have k1: "ok st1" "live st1" "rest st1 = rest st" by simp_all
    show ?thesis
    proof (cases slash)
      case True
      let ?st2 = "line_comment (emit ''/'' st1)"
      obtain d st3 where g: "get False ?st2 = (d, st3)" by force
      from assms(1) nq sl a True g have e: "c2 = of_get d" "st2 = st3" "l2 = left"
        by (auto simp: process_step2_unfold of_get_def)
      from k1 ne l have "ok (emit ''/'' st1)" "rest (emit ''/'' st1) \<noteq> []"
        "last (rest (emit ''/'' st1)) = NL"
        by simp_all
      note lc = line_comment_ext [OF this]
      have "ok ?st2" using line_comment_echoes [of "emit ''/'' st1"] k1(1)
        by (auto dest: echoes_ok)
      moreover have "live ?st2" using lc k1(2) by simp
      ultimately have "if of_get d = Eof then get False (ext ?st2) = (Some NL, ext st3) \<and> spent st3
         else get False (ext ?st2) = (d, ext st3) \<and> live st3"
        by (rule get_pending_ext [OF g])
      with lc ea True nq sl e show ?thesis
        by (auto simp: process_step2_unfold of_get_def)
    next
      case ns: False
      obtain star st2' where b: "peek_is CHR ''*'' st1 = (star, st2')" by force
      note fb = peek_is_rest [OF b k1(1)]
      from k1 ne have ne1: "rest st1 \<noteq> []" by simp
      note eb = peek_is_ext [OF b k1(1) ne1]
      from assms(5) sl have "head (rest st) \<noteq> Some CHR ''*''"
        by (cases "rest st") (auto simp: cur_chars_def head_def)
      with fb k1 have nstar: "\<not> star" by simp
      let ?st3 = "emit ''/'' st2'"
      from fb eb k1 have k3: "ok ?st3" "live ?st3" by simp_all
      obtain st4 where r: "(if pre_regexp left then regexp False ?st3 else Inr ?st3) = Inr st4"
        using assms(1) nq sl a ns b nstar
        by (auto simp: process_step2_unfold split: sum.splits)
      obtain d st5 where g: "get False st4 = (d, st5)" by force
      from assms(1) nq sl a ns b nstar r g have e: "c2 = of_get d" "st2 = st5"
        "l2 = Some CHR ''/''"
        by (auto simp: process_step2_unfold of_get_def)
      have r': "(if pre_regexp left then regexp False (ext ?st3) else Inr (ext ?st3)) = Inr (ext st4)
                \<and> live st4"
        using r k3(2) regexp_loop_ext [of "line_nr ?st3" ?st3 st4]
        by (auto simp: regexp_def split: if_splits)
      have "echoes ?st3 st4" using r by (auto split: if_splits intro: regexp_echoes)
      from echoes_ok [OF this k3(1)] have "ok st4" .
      from get_pending_ext [OF g this] r'
      have "if of_get d = Eof then get False (ext st4) = (Some NL, ext st5) \<and> spent st5
         else get False (ext st4) = (d, ext st5) \<and> live st5"
        by simp
      with r' ea eb ns nstar nq sl e show ?thesis
        by (auto simp: process_step2_unfold of_get_def)
    qed
  qed
qed


lemma process_loop2_spent:
  assumes "spent st"
  shows "\<exists>s'. process_loop2 tags methods (Ch NL) l (ext st) = Inr s'"
proof -
  let ?s0 = "emit_char (Some NL) (ext st)"
  obtain d s1 where g: "get False ?s0 = (d, s1)" by force
  from assms have "lines_at (lines st @ [[]]) (line_nr st + 1) = None"
    by (simp add: spent_def lines_at_def)
  with assms g have "d = None"
    by (auto simp: get_def take_char_def spent_def)
  with g have "process_step2 tags methods (Ch NL) l (ext st) = Next ((Eof, l), s1)"
    by (simp add: process_step2_unfold is_quote_def cur_char_def gt_space_def of_get_def)
  then have "process_loop2 tags methods (Ch NL) l (ext st) = process_loop2 tags methods Eof l s1"
    by (subst process_loop2.simps) simp
  also have "\<dots> = Inr s1" by (subst process_loop2.simps) simp
  finally show ?thesis by blast
qed

lemma process_loop2_ext:
  assumes "process_loop2 tags methods c left st = Inr st'"
    and "ok st" and "live st" and "c \<noteq> Eof"
    and "\<not> has_pair CHR ''/'' CHR ''*'' (cur_chars c @ rest st)"
    and "cur_chars c @ rest st \<noteq> [] \<longrightarrow> last (cur_chars c @ rest st) = NL"
  shows "\<exists>s'. process_loop2 tags methods c left (ext st) = Inr s'"
  using assms
proof (induction tags methods c left st rule: process_loop2.induct)
  case (1 tags methods c left st)
  note ne = "1.prems"(4)
  note pp = process_step2_plain [OF "1.prems"(2) ne "1.prems"(5), of tags methods left]
  show ?case
  proof (cases "process_step2 tags methods c left st")
    case (Throw e)
    with "1.prems"(1) ne show ?thesis by (subst (asm) process_loop2.simps) simp
  next
    case (Return st1)
    with pp show ?thesis by simp
  next
    case (Next x)
    obtain c2 l2 st2 where x: "x = ((c2, l2), st2)" by (cases x) auto
    from pp Next x obtain zs where
      f: "ok st2" "cur_chars c @ rest st = zs @ cur_chars c2 @ rest st2"
      by auto
    from "1.prems"(5) f(2) have n: "\<not> has_pair CHR ''/'' CHR ''*'' (cur_chars c2 @ rest st2)"
      using has_pair_suffix by metis
    from "1.prems"(6) f(2) have
      l: "cur_chars c2 @ rest st2 \<noteq> [] \<longrightarrow> last (cur_chars c2 @ rest st2) = NL"
      by (metis append_is_Nil_conv last_appendR)
    from "1.prems"(1) ne Next x have r: "process_loop2 tags methods c2 l2 st2 = Inr st'"
      by (subst (asm) process_loop2.simps) simp
    note se = process_step2_ext [OF Next [unfolded x] "1.prems"(2,3) ne "1.prems"(5,6)]
    show ?thesis
    proof (cases "c2 = Eof")
      case True
      with se have s: "process_step2 tags methods c left (ext st) = Next ((Ch NL, l2), ext st2)"
        and sp: "spent st2" by simp_all
      from process_loop2_spent [OF sp, of tags methods l2] obtain s' where
        "process_loop2 tags methods (Ch NL) l2 (ext st2) = Inr s'" by blast
      with s ne have "process_loop2 tags methods c left (ext st) = Inr s'"
        by (subst process_loop2.simps) simp
      then show ?thesis by blast
    next
      case False
      with se have s: "process_step2 tags methods c left (ext st) = Next ((c2, l2), ext st2)"
        and lv: "live st2" by simp_all
      from "1.IH" [OF ne Next [unfolded x] refl refl r f(1) lv False n l] obtain s' where
        "process_loop2 tags methods c2 l2 (ext st2) = Inr s'" by blast
      with s ne have "process_loop2 tags methods c left (ext st) = Inr s'"
        by (subst process_loop2.simps) simp
      then show ?thesis by blast
    qed
  qed
qed

lemma last_stream_of: "stream_of ls \<noteq> [] \<longrightarrow> last (stream_of ls) = NL"
  by (induction ls rule: rev_induct) (simp_all add: stream_of_def)

lemma process2_ext:
  assumes "process2 tags methods (init\<lparr>lines := ls\<rparr>) = Inr st'"
    and "\<not> has_pair CHR ''/'' CHR ''*'' (stream_of ls)"
  shows "\<exists>s'. process2 tags methods (init\<lparr>lines := ls @ [[]]\<rparr>) = Inr s'"
proof -
  let ?st0 = "init\<lparr>lines := ls\<rparr>"
  have e0: "init\<lparr>lines := ls @ [[]]\<rparr> = ext ?st0" by (simp add: ext_def init_def)
  have f0: "ok ?st0" "rest ?st0 = stream_of ls" "live ?st0"
    by (simp_all add: init_def ok_def rest_def live_def)
  obtain c st1 where g: "get False ?st0 = (c, st1)" by force
  note gp = get_pending [OF g f0(1)]
  note ge = get_pending_ext [OF g f0(1,3)]
  from assms(1) g have r: "process_loop2 tags methods (of_get c) None st1 = Inr st'"
    by (simp add: process2_def)
  show ?thesis
  proof (cases "of_get c = Eof")
    case True
    with ge have "get False (ext ?st0) = (Some NL, ext st1)" "spent st1" by simp_all
    with process_loop2_spent [of st1 tags methods None] show ?thesis
      unfolding e0 by (simp add: process2_def of_get_def)
  next
    case False
    with ge have g': "get False (ext ?st0) = (c, ext st1)" and lv: "live st1" by simp_all
    from gp f0(2) have s: "stream_of ls = cur_chars (of_get c) @ rest st1" and ok1: "ok st1"
      by simp_all
    from assms(2) s have n: "\<not> has_pair CHR ''/'' CHR ''*'' (cur_chars (of_get c) @ rest st1)"
      by simp
    from last_stream_of [of ls] s
    have l: "cur_chars (of_get c) @ rest st1 \<noteq> [] \<longrightarrow> last (cur_chars (of_get c) @ rest st1) = NL"
      by simp
    from process_loop2_ext [OF r ok1 lv False n l] g' show ?thesis
      unfolding e0 by (simp add: process2_def)
  qed
qed


text \<open>A line as \<^verbatim>\<open>split\<close> makes it: without line feed and carriage return.\<close>

definition clean :: "string \<Rightarrow> bool" where
  "clean l = (NL \<notin> set l \<and> CR \<notin> set l)"

lemma split_from_clean: "clean cur \<Longrightarrow> list_all clean (split_from cur s)"
proof (induction cur s rule: split_from.induct)
  case (1 cur)
  then show ?case by simp
next
  case (2 cur c cs)
  have e: "clean []" by (simp add: clean_def)
  show ?case
  proof (cases "c = NL")
    case True
    with 2 e show ?thesis by simp
  next
    case nn: False
    show ?thesis
    proof (cases "c = CR")
      case True
      with 2 nn e show ?thesis by (cases cs) auto
    next
      case False
      with nn "2.prems" have "clean (cur @ [c])" by (simp add: clean_def)
      with 2 nn False show ?thesis by simp
    qed
  qed
qed

lemma split_from_line:
  "clean l \<Longrightarrow> split_from cur (l @ NL # xs) = (cur @ l) # split_from [] xs"
  by (induction l arbitrary: cur) (auto simp: clean_def)

lemma split_lines_stream:
  "list_all clean ls \<Longrightarrow> split_lines (stream_of ls) = ls @ [[]]"
  by (induction ls) (simp_all add: split_lines_def stream_of_def split_from_line)

lemma stream_of_snoc: "stream_of (ls @ [[]]) = stream_of ls @ [NL]"
  by (simp add: stream_of_def)

lemma has_pair_snoc: "y \<noteq> z \<Longrightarrow> has_pair x y (xs @ [z]) = has_pair x y xs"
  by (induction x y xs rule: has_pair.induct) simp_all

lemma jsdev2_plain:
  assumes "list_all well_formed ts"
    and "\<not> has_pair CHR ''/'' CHR ''*'' (stream_of (source_lines source))"
  shows "case fst (jsdev2 source (TagsArray ts) NoComments) of
           Inr text \<Rightarrow> text = stream_of (source_lines source)
         | Inl e \<Rightarrow> literal_error e"
proof -
  obtain r ts' where t: "tags_map (- 1) [] ts [] = (r, ts')" by force
  with tags_map_ok [OF assms(1), of "- 1" "[]" "[]"] obtain ms where r: "r = Inr ms" by auto
  from process2_plain [OF assms(2), of ts' ms] t r show ?thesis
    by (auto simp: jsdev2_def header_def init_def source_lines_def out_def split: sum.splits)
qed

lemma process_step2_tags:
  assumes "ok st" and "\<not> has_pair CHR ''/'' CHR ''*'' (cur_chars c @ rest st)"
  shows "process_step2 tags methods c left st = process_step2 tags' methods' c left st"
proof (cases "c = Ch CHR ''/''")
  case False
  then show ?thesis by (simp add: process_step2_unfold)
next
  case sl: True
  obtain slash st1 where a: "peek_is CHR ''/'' st = (slash, st1)" by force
  note fa = peek_is_rest [OF a assms(1)]
  obtain star st2 where b: "peek_is CHR ''*'' st1 = (star, st2)" by force
  from fa have ok1: "ok st1" by simp
  note fb = peek_is_rest [OF b ok1]
  from assms(2) sl have "head (rest st) \<noteq> Some CHR ''*''"
    by (cases "rest st") (auto simp: cur_chars_def head_def)
  with fa fb have "\<not> star" by simp
  with a b sl show ?thesis by (simp add: process_step2_unfold)
qed

lemma process_loop2_tags:
  assumes "ok st" and "c = Eof \<longrightarrow> rest st = []"
    and "\<not> has_pair CHR ''/'' CHR ''*'' (cur_chars c @ rest st)"
  shows "process_loop2 tags methods c left st = process_loop2 tags' methods' c left st"
  using assms
proof (induction tags methods c left st rule: process_loop2.induct)
  case (1 tags methods c left st)
  show ?case
  proof (cases "c = Eof")
    case True
    then show ?thesis
      by (subst process_loop2.simps, subst (2) process_loop2.simps) simp
  next
    case False
    note ps = process_step2_plain [OF "1.prems"(1) False "1.prems"(3), of tags methods left]
    note pt = process_step2_tags [OF "1.prems"(1,3), of tags methods left tags' methods']
    show ?thesis
    proof (cases "process_step2 tags methods c left st")
      case (Throw e)
      then have t': "process_step2 tags' methods' c left st = Throw e" using pt by simp
      show ?thesis
        by (subst process_loop2.simps, subst (2) process_loop2.simps) (simp add: False Throw t')
    next
      case (Return st1)
      with ps show ?thesis by simp
    next
      case (Next x)
      then have t': "process_step2 tags' methods' c left st = Next x" using pt by simp
      obtain c2 left2 st2 where x: "x = ((c2, left2), st2)" by (cases x) auto
      from ps Next x obtain zs where
        f: "ok st2" "c2 = Eof \<longrightarrow> rest st2 = []"
           "cur_chars c @ rest st = zs @ cur_chars c2 @ rest st2"
        by auto
      from "1.prems"(3) f(3) have n: "\<not> has_pair CHR ''/'' CHR ''*'' (cur_chars c2 @ rest st2)"
        using has_pair_suffix by metis
      note IH = "1.IH" [OF False Next [unfolded x] refl refl f(1,2) n]
      show ?thesis
        by (subst process_loop2.simps, subst (2) process_loop2.simps)
           (simp add: False Next t' x IH)
    qed
  qed
qed

lemma process2_tags:
  assumes "\<not> has_pair CHR ''/'' CHR ''*'' (stream_of ls)"
  shows "process2 tags methods (init\<lparr>lines := ls\<rparr>) = process2 tags' methods' (init\<lparr>lines := ls\<rparr>)"
proof -
  let ?st0 = "init\<lparr>lines := ls\<rparr>"
  have f0: "ok ?st0" "rest ?st0 = stream_of ls"
    by (simp_all add: init_def ok_def rest_def)
  obtain c st1 where g: "get False ?st0 = (c, st1)" by force
  from get_pending [OF g f0(1)] f0 have
    f1: "ok st1" "stream_of ls = cur_chars (of_get c) @ rest st1"
        "of_get c = Eof \<longrightarrow> rest st1 = []"
    by simp_all
  from assms f1(2) have "\<not> has_pair CHR ''/'' CHR ''*'' (cur_chars (of_get c) @ rest st1)" by simp
  from process_loop2_tags [OF f1(1,3) this] g show ?thesis
    by (simp add: process2_def)
qed

section \<open>Running the conversion on concrete inputs\<close>

lemmas run2_simps =
  jsdev2_def process2_def process_loop2.simps process_step2_def expand2_def
  condition2_def condition_loop2.simps condition_chain2_def
  stuff_def stuff_loop.simps stuff_stars.simps stuff_chain_def skip_spaces.simps
  regexp_def regexp_loop.simps regexp_chain_def regexp_set.simps
  string_def string_loop.simps comment_loop.simps read_tag2.simps line_comment.simps
  get_def peek_def unget_def peek_is_def peek_is2_def emit_def emit_char_def take_char_def
  lines_at_def is_quote_def is_open_def is_close_def gt_space_def pre_regexp_def
  is_alphanum_def is_alphanum2_def of_get_def cur_char_def index_of_def method_at_def
  tagx_exec_def split_lines_def header_def init_def error_def show_int_def show_nat.simps
  Let_def

lemmas run_simps =
  jsdev_def process_def process_loop.simps process_step_def
  expand_def stuff_def stuff_loop.simps stuff_stars.simps stuff_chain_def skip_spaces.simps
  condition_def condition_loop.simps condition_chain_def
  regexp_def regexp_loop.simps regexp_chain_def regexp_set.simps
  string_def string_loop.simps comment_loop.simps read_tag.simps line_comment.simps
  get_def peek_def unget_def peek_is_def peek_is2_def emit_def emit_char_def take_char_def
  lines_at_def is_quote_def is_open_def is_close_def gt_space_def pre_regexp_def
  is_alphanum_def of_get_def cur_char_def index_of_def method_at_def tagx_exec_def
  split_lines_def header_def init_def error_def show_int_def show_nat.simps Let_def

section \<open>Line numbers of truncated literals\<close>

text \<open>
  Claim C6. When a string or regexp literal runs into the end of the input, the error
  should name the line on which the literal began. \<^verbatim>\<open>string\<close> and the outer loop of
  \<^verbatim>\<open>regexp\<close> restore \<^verbatim>\<open>line_nr = was\<close> before they throw; the inner loop of
  \<^verbatim>\<open>regexp\<close>, over a bracketed set, throws without restoring it. In a source of three
  lines whose second line opens a regexp literal, the unterminated literal is reported
  on line 2, where it began, but the unterminated set is reported on line 4, one past
  the last line.
\<close>

theorem C6_unterminated_set_line:
  "fst (jsdev (SourceString ''a\<newline>x = /ab\<newline>c'') (TagsArray [''debug'']) NoComments)
     = Some (Inl ''JSDev: 2 unterminated regexp literal.'')
   \<and> fst (jsdev (SourceString ''a\<newline>x = /[ab\<newline>c'') (TagsArray [''debug'']) NoComments)
     = Some (Inl ''JSDev: 4 unterminated set in Regular Expression literal.'')"
  by (simp add: run_simps)

text \<open>
  Claim C8. When some entry of the tags array does not match the pattern, \<^verbatim>\<open>jsdev\<close>
  throws, whatever the source and the comments are (so before any character of the source
  is read); the message has \<^verbatim>\<open>bad tag\<close> where the line number would stand, followed
  by the entry (the first one that does not match).
\<close>

theorem C8_bad_tag:
  assumes "v \<in> set ts" and "tagx_exec v = None"
  shows "\<exists>w\<in>set ts. tagx_exec w = None \<and>
           (\<forall>source comments.
              fst (jsdev source (TagsArray ts) comments) = Some (Inl (''JSDev: bad tag '' @ w)))"
proof -
  from assms have "\<exists>v\<in>set ts. tagx_exec v = None" by blast
  from tags_map_bad [OF this, of "- 1" "[]" "[]"] obtain w where
    w: "w \<in> set ts" "tagx_exec w = None" "fst (tags_map (- 1) [] ts []) = Inl (error (- 1) w)"
    by blast
  have "fst (jsdev source (TagsArray ts) comments) = Some (Inl (''JSDev: bad tag '' @ w))"
    for source comments
    using w(3) by (auto simp: jsdev_def error_bad_tag init_def split: prod.splits sum.splits)
  with w(1,2) show ?thesis by blast
qed

theorem C8_bad_tag_witness:
  "tagx_exec ''log: console.log'' = None \<and>
   fst (jsdev (SourceString ''x = 1;'') (TagsArray [''debug'', ''log: console.log'']) NoComments)
     = Some (Inl ''JSDev: bad tag log: console.log'')"
  using C8_bad_tag [of "''log: console.log''" "[''debug'', ''log: console.log'']"]
  by (simp add: tagx_exec_def is_alphanum_def)

text \<open>
  Claim C9, as stated: every declaration \<^verbatim>\<open>tag:method\<close> in the caller's array is
  overwritten by \<^verbatim>\<open>tag\<close>. The entries are visited in order and a malformed entry
  throws at once, so a declaration that stands after it keeps its method suffix.
\<close>

theorem C9_counterexample:
  "well_formed ''x:y'' \<and> strip_method ''x:y'' = ''x'' \<and>
   snd (jsdev (SourceString ''a'') (TagsArray [''a b'', ''x:y'']) NoComments)
     = TagsArray [''a b'', ''x:y'']"
  by (simp add: run_simps well_formed_def strip_method_def)

text \<open>
  Claim C9, amended. After the call the caller's array holds, for the entries before the
  first malformed one (all of them when every entry is well formed), the declaration
  without its \<^verbatim>\<open>:method\<close> suffix, which leaves an entry without a suffix as it was;
  the entries from the first malformed one on are untouched. The array after the call does
  not depend on the source or the comments: nothing else writes to it.
\<close>

theorem C9_tags_after:
  "snd (jsdev source (TagsArray ts) comments) =
     TagsArray (map strip_method (takeWhile well_formed ts) @ dropWhile well_formed ts)"
  using tags_map_array [of "- 1" "[]" ts "[]"]
  by (auto simp: jsdev_def init_def split: prod.splits sum.splits option.splits)

section \<open>The four shapes of an expansion\<close>

definition alarm_before :: state where
  "alarm_before =
     \<lparr>lines = [''/*alarm(level>5) '' @ [DQ] @ ''loud'' @ [DQ] @ ''*/''],
      line = Some (''level>5) '' @ [DQ] @ ''loud'' @ [DQ] @ ''*/''),
      line_nr = 0, preview = Some CHR ''('', outputs = []\<rparr>"

definition alarm_after :: state where
  "alarm_after =
     \<lparr>lines = [''/*alarm(level>5) '' @ [DQ] @ ''loud'' @ [DQ] @ ''*/''],
      line = Some [], line_nr = 0, preview = None,
      outputs = [''if '', ''('', ''l'', ''e'', ''v'', ''e'', ''l'', ''>'', ''5'', '')'', '' '',
                 ''{'', ''alert('', [DQ], ''l'', ''o'', ''u'', ''d'', [DQ], '');}'']\<rparr>"

text \<open>
  Claim C1. When \<^verbatim>\<open>expand\<close> returns, the stream from where it started is a condition
  (present exactly when the first character is an opening parenthesis), then spaces, then
  the body, then the closing \<^verbatim>\<open>*/\<close>, then what is left; and what it has written is
  \<^verbatim>\<open>if \<close>, the condition and a space when there is a condition, then \<^verbatim>\<open>{\<close>, then
  the body, wrapped as \<^verbatim>\<open>method(body);\<close> when the tag has a method, then \<^verbatim>\<open>}\<close>.
\<close>

theorem C1_expand_shapes:
  assumes "expand methods i st = Inr st'" and "ok st"
  shows "\<exists>cnd n body.
           rest st = cnd @ replicate n CHR '' '' @ body @ ''*/'' @ rest st'
           \<and> (cnd \<noteq> [] \<longleftrightarrow> head (rest st) = Some CHR ''('')
           \<and> head (body @ ''*/'') \<noteq> Some CHR '' ''
           \<and> out st' = out st @ expansion cnd (method_at methods i) body"
proof -
  obtain c st1 where p: "peek st = (c, st1)" by force
  note f1 = peek_rest [OF p assms(2)]
  let ?pre = "\<lambda>cnd. if cnd = [] then [] else ''if '' @ cnd @ '' ''"
  obtain st3 where
    c3: "(if c = Some CHR ''('' then
            (case condition (emit ''if '' st1) of
               Inl e \<Rightarrow> Inl e
             | Inr st2 \<Rightarrow> Inr (emit '' '' st2))
          else Inr st1) = Inr st3"
    using assms(1) p by (auto simp: expand_def split: sum.splits)
  have "\<exists>cnd. moves st cnd (?pre cnd) st3 \<and> (cnd \<noteq> [] \<longleftrightarrow> c = Some CHR ''('')"
  proof (cases "c = Some CHR ''(''")
    case False
    with c3 have "st3 = st1" by simp
    with moves_peek [OF p] False show ?thesis by (intro exI [of _ "[]"]) simp
  next
    case True
    with c3 obtain st2 where
      c2: "condition (emit ''if '' st1) = Inr st2" and s3: "st3 = emit '' '' st2"
      by (auto split: sum.splits)
    from f1 have "ok (emit ''if '' st1)" by simp
    from condition_moves [OF c2 this] obtain cnd where
      m: "moves (emit ''if '' st1) cnd cnd st2" and ne: "cnd \<noteq> []" by blast
    have "moves st [] ''if '' (emit ''if '' st1)"
      using moves_trans [OF moves_peek [OF p] moves_emit [of st1 "''if ''"]] by simp
    from moves_trans [OF moves_trans [OF this m] moves_emit [of st2 "'' ''"]] s3 ne
    have "moves st cnd (?pre cnd) st3" by simp
    with ne True show ?thesis by blast
  qed
  then obtain cnd where
    m3: "moves st cnd (?pre cnd) st3" and cn: "cnd \<noteq> [] \<longleftrightarrow> c = Some CHR ''(''"
    by blast
  from moves_ok [OF m3 assms(2)] have ok3: "ok st3" .
  let ?open = "case method_at methods i of None \<Rightarrow> ''{'' | Some m \<Rightarrow> ''{'' @ m @ ''(''"
  let ?close = "case method_at methods i of None \<Rightarrow> ''}'' | Some m \<Rightarrow> '');}''"
  let ?st4 = "case method_at methods i of None \<Rightarrow> emit ''{'' st3
              | Some m \<Rightarrow> emit (m @ ''('') (emit ''{'' st3)"
  have m4: "moves st3 [] ?open ?st4"
    using moves_trans [OF moves_emit [of st3 "''{''"] moves_emit [of "emit ''{'' st3"]]
    by (auto split: option.splits intro: moves_emit)
  from moves_ok [OF m4 ok3] have ok4: "ok ?st4" .
  from assms(1) p c3 obtain st5 where
    s5: "stuff ?st4 = Inr st5" and s': "st' = emit ?close st5"
    by (auto simp: expand_def split: option.splits sum.splits)
  from stuff_moves [OF s5 ok4] obtain n body where
    m5: "moves ?st4 (replicate n CHR '' '' @ body @ ''*/'') body st5"
    and hb: "head (body @ ''*/'') \<noteq> Some CHR '' ''"
    by blast
  have "moves st (cnd @ [] @ (replicate n CHR '' '' @ body @ ''*/'') @ [])
          (?pre cnd @ ?open @ body @ ?close) st'"
    unfolding s'
    by (intro moves_trans [OF m3] moves_trans [OF m4] moves_trans [OF m5] moves_emit)
  with assms(2) have
    "rest st = cnd @ replicate n CHR '' '' @ body @ ''*/'' @ rest st'"
    "out st' = out st @ ?pre cnd @ ?open @ body @ ?close"
    by (simp_all add: moves_def)
  moreover have "?pre cnd @ ?open @ body @ ?close = expansion cnd (method_at methods i) body"
    by (simp add: expansion_def split: option.splits)
  ultimately show ?thesis using cn hb f1 by auto
qed




text \<open>The example of the claim: \<^verbatim>\<open>alarm_before\<close> is the state in which the dispatcher
  calls \<^verbatim>\<open>expand\<close> after it has read \<^verbatim>\<open>/*alarm\<close> and pushed back the parenthesis.
  The whole conversion returns the expansion followed by the line feed that ends the
  line.\<close>

theorem C1_expand_shapes_witness:
  "expand [Some ''alert''] 0 alarm_before = Inr alarm_after \<and> ok alarm_before
   \<and> out alarm_after = ''if (level>5) {alert('' @ [DQ] @ ''loud'' @ [DQ] @ '');}''
   \<and> (\<exists>cnd n body.
         rest alarm_before = cnd @ replicate n CHR '' '' @ body @ ''*/'' @ rest alarm_after
         \<and> (cnd \<noteq> [] \<longleftrightarrow> head (rest alarm_before) = Some CHR ''('')
         \<and> head (body @ ''*/'') \<noteq> Some CHR '' ''
         \<and> out alarm_after
             = out alarm_before @ expansion cnd (method_at [Some ''alert''] 0) body)
   \<and> fst (jsdev (SourceString (''/*alarm(level>5) '' @ [DQ] @ ''loud'' @ [DQ] @ ''*/''))
             (TagsArray [''alarm:alert'']) NoComments)
       = Some (Inr (''if (level>5) {alert('' @ [DQ] @ ''loud'' @ [DQ] @ '');}'' @ [NL]))"
proof -
  have e: "expand [Some ''alert''] 0 alarm_before = Inr alarm_after"
    by (simp add: alarm_before_def alarm_after_def run_simps)
  have k: "ok alarm_before" by (simp add: ok_def alarm_before_def)
  have o: "out alarm_after = ''if (level>5) {alert('' @ [DQ] @ ''loud'' @ [DQ] @ '');}''"
    by (simp add: out_def alarm_after_def)
  have j: "fst (jsdev (SourceString (''/*alarm(level>5) '' @ [DQ] @ ''loud'' @ [DQ] @ ''*/''))
             (TagsArray [''alarm:alert'']) NoComments)
       = Some (Inr (''if (level>5) {alert('' @ [DQ] @ ''loud'' @ [DQ] @ '');}'' @ [NL]))"
    by (simp add: run_simps)
  from C1_expand_shapes [OF e k] e k o j show ?thesis by blast
qed

section \<open>The balance of the body\<close>




section \<open>Escapes and the close of a comment inside a string\<close>

definition in_string :: state where
  "in_string =
     \<lparr>lines = [''/*debug '' @ [DQ, BSL] @ ''*/'' @ [DQ] @ ''*/''],
      line = Some ([BSL] @ ''*/'' @ [DQ] @ ''*/''), line_nr = 0, preview = None,
      outputs = [''{'', [DQ]]\<rparr>"

text \<open>
  Claim C5, as stated: inside a tagged comment a string whose only \<^verbatim>\<open>*\<close> before a
  \<^verbatim>\<open>/\<close> is escaped by a backslash is not rejected. The check for \<^verbatim>\<open>*\<close> followed
  by \<^verbatim>\<open>/\<close> is made on the escaped character as well, so the string
  \<^verbatim>\<open>"\*/"\<close> in the body of \<^verbatim>\<open>/*debug ...*/\<close> is rejected.
\<close>

theorem C5_counterexample:
  "fst (jsdev (SourceString (''/*debug '' @ [DQ, BSL] @ ''*/'' @ [DQ] @ ''*/''))
         (TagsArray [''debug'']) NoComments)
     = Some (Inl ''JSDev: 1 unexpected close comment in string.'')"
  by (simp add: run_simps)

text \<open>
  Claim C5, amended. \<^verbatim>\<open>string_loop quote in_comment was\<close> is the loop of
  \<^verbatim>\<open>string\<close>. A backslash and the character after it are consumed and echoed together,
  and the character is taken neither as the closing quote nor as another backslash; but
  inside a tagged comment, if that character is \<^verbatim>\<open>*\<close> and \<^verbatim>\<open>/\<close> follows, the
  close-comment error is thrown. Inside a tagged comment the close-comment error is thrown
  exactly when \<^verbatim>\<open>*/\<close> stands in the stream before any unescaped closing quote,
  whether or not a backslash precedes the \<^verbatim>\<open>*\<close>.
\<close>

theorem C5_string_escape_and_close:
  assumes "ok st" and "is_quote (Some q)"
  shows "(rest st = BSL # x # xs \<longrightarrow>
            (if ic \<and> x = CHR ''*'' \<and> head xs = Some CHR ''/''
             then \<exists>m. string_loop q ic w st
                        = Inl (error m ''unexpected close comment in string.'')
             else \<exists>st2. string_loop q ic w st = string_loop q ic w st2 \<and> ok st2
                     \<and> rest st2 = xs \<and> out st2 = out st @ [BSL, x]))
       \<and> ((\<exists>m. string q True st = Inl (error m ''unexpected close comment in string.''))
            \<longleftrightarrow> (\<exists>pre post. rest st = pre @ ''*/'' @ post \<and> \<not> closes q pre))"
proof (intro conjI impI)
  from assms(2) have q: "q \<noteq> BSL" "q \<noteq> CHR ''*''" by (auto simp: is_quote_def)
  {
    assume r: "rest st = BSL # x # xs"
    from string_loop_escape [OF assms(1) r q(1), of ic w] assms(1) r
    show "if ic \<and> x = CHR ''*'' \<and> head xs = Some CHR ''/''
          then \<exists>m. string_loop q ic w st
                     = Inl (error m ''unexpected close comment in string.'')
          else \<exists>st2. string_loop q ic w st = string_loop q ic w st2 \<and> ok st2
                  \<and> rest st2 = xs \<and> out st2 = out st @ [BSL, x]"
      by (auto simp: moves_def)
  }
  note e = string_loop_end [OF assms(1) q(1), of True "line_nr st"]
  note i = close_comment_iff [OF q, of "rest st"]
  show "(\<exists>m. string q True st = Inl (error m ''unexpected close comment in string.''))
          \<longleftrightarrow> (\<exists>pre post. rest st = pre @ ''*/'' @ post \<and> \<not> closes q pre)"
  proof (cases "string_end q True (rest st)")
    case Closed
    with e i show ?thesis by (auto simp: string_def)
  next
    case CloseComment
    with e i show ?thesis by (auto simp: string_def)
  next
    case Unterminated
    with e i error_close_unterminated [THEN not_sym] show ?thesis by (auto simp: string_def)
  qed
qed

text \<open>The theorem at the string \<^verbatim>\<open>"\*/"\<close>, just after its opening quote.\<close>

theorem C5_string_escape_and_close_witness:
  "ok in_string \<and> is_quote (Some DQ)
   \<and> rest in_string = BSL # CHR ''*'' # (''/'' @ [DQ] @ ''*/'' @ [NL])
   \<and> (\<exists>m. string_loop DQ True 0 in_string
            = Inl (error m ''unexpected close comment in string.''))
   \<and> rest in_string = [BSL] @ ''*/'' @ ([DQ] @ ''*/'' @ [NL]) \<and> \<not> closes DQ [BSL]
   \<and> (\<exists>m. string DQ True in_string = Inl (error m ''unexpected close comment in string.''))"
proof -
  have k: "ok in_string" by (simp add: ok_def in_string_def)
  have q: "is_quote (Some DQ)" by (simp add: is_quote_def)
  have r: "rest in_string = BSL # CHR ''*'' # (''/'' @ [DQ] @ ''*/'' @ [NL])"
    by (simp add: rest_def in_string_def stream_of_def)
  have r': "rest in_string = [BSL] @ ''*/'' @ ([DQ] @ ''*/'' @ [NL])"
    using r by simp
  have c: "\<not> closes DQ [BSL]" by simp
  from C5_string_escape_and_close [OF k q, of "CHR ''*''" "''/'' @ [DQ] @ ''*/'' @ [NL]" True 0] r
  have a: "\<exists>m. string_loop DQ True 0 in_string
            = Inl (error m ''unexpected close comment in string.'')"
    by (simp add: head_def)
  from C5_string_escape_and_close [OF k q] r' c
  have b: "\<exists>m. string DQ True in_string = Inl (error m ''unexpected close comment in string.'')"
    by blast
  from k q r a r' c b show ?thesis by blast
qed

section \<open>The two revisions\<close>

text \<open>
  Claim C10. For every source, tags and comments argument the two revisions of
  \<^verbatim>\<open>jsdev\<close> give the same outcome: the same returned string or the same thrown message
  (and leave the caller's tags array in the same state). \<^const>\<open>jsdev\<close> is the first
  revision, whose tag loop would not end at the sentinel, and \<^const>\<open>jsdev2\<close> the second,
  which always returns or throws: the first revision returns or throws for every input as
  well, and with the same outcome.
\<close>

theorem C10_revisions_agree:
  "jsdev source tags comments =
     (Some (fst (jsdev2 source tags comments)), snd (jsdev2 source tags comments))"
  by (rule jsdev_total)

text \<open>A comment whose tag runs to the end of the text: in both revisions the tag loop ends
  at the line feed that \<^verbatim>\<open>get\<close> gives after the last line, and the body of the comment
  is found unterminated.\<close>

theorem C10_revisions_agree_witness:
  "jsdev2 (SourceString ''/*debug'') (TagsArray [''debug'']) NoComments
     = (Inl ''JSDev: 3 Unterminated stuff.'', TagsArray [''debug''])
   \<and> jsdev (SourceString ''/*debug'') (TagsArray [''debug'']) NoComments
     = (Some (Inl ''JSDev: 3 Unterminated stuff.''), TagsArray [''debug''])"
proof -
  have j: "jsdev2 (SourceString ''/*debug'') (TagsArray [''debug'']) NoComments
     = (Inl ''JSDev: 3 Unterminated stuff.'', TagsArray [''debug''])"
    by (simp add: run2_simps)
  from C10_revisions_agree [of "SourceString ''/*debug''" "TagsArray [''debug'']" NoComments] j
  show ?thesis by simp
qed

section \<open>Block comments without a declared tag\<close>

definition at_unknown :: state where
  "at_unknown = \<lparr>lines = [''/*unknown stuff*/''], line = Some ''*unknown stuff*/'',
                  line_nr = 0, preview = None, outputs = []\<rparr>"

text \<open>
  Claim C2. The dispatcher holds a \<^verbatim>\<open>/\<close> it has just read, and the stream goes on with
  \<^verbatim>\<open>*\<close>, then the candidate tag (a run of tag characters that the next character does
  not extend), which is empty or not declared. If the rest has its first \<^verbatim>\<open>*/\<close>
  before any \<^verbatim>\<open>/*\<close>, the dispatcher goes on after the comment with exactly
  \<^verbatim>\<open>/*\<close>, the tag, the text up to the \<^verbatim>\<open>*/\<close> and the \<^verbatim>\<open>*/\<close> appended to
  the output; if a \<^verbatim>\<open>/*\<close> comes first, it throws \<^verbatim>\<open>nested comment.\<close>; and if the
  input ends before either, it throws \<^verbatim>\<open>unterminated comment.\<close> The characters are
  those that the stream delivers: a line boundary inside the comment is the line feed that
  \<^verbatim>\<open>get\<close> gives for it. The character that ends the tag is a character of the stream:
  \<^const>\<open>is_alphanum\<close> holds of the sentinel, so the hypothesis that it fails after the tag
  leaves out the stream that ends with the tag, on which the tag loop of this revision
  does not return.
\<close>

theorem C2_unknown_comment:
  assumes "ok st" and "rest st = CHR ''*'' # tag @ after" and "list_all alnum tag"
    and "\<not> is_alphanum (head after)" and "tag = [] \<or> tag \<notin> set tags"
  shows "(after = pre @ ''*/'' @ post
            \<and> \<not> has_pair CHR ''*'' CHR ''/'' (pre @ ''*'')
            \<and> \<not> has_pair CHR ''/'' CHR ''*'' (pre @ ''*'') \<longrightarrow>
          (\<exists>st'. process_loop tags methods (Ch CHR ''/'') left st
                    = process_loop tags methods (of_get (head post)) left st'
                  \<and> ok st' \<and> rest st' = tl post
                  \<and> out st' = out st @ ''/*'' @ tag @ pre @ ''*/''))
       \<and> (after = pre @ ''/*'' @ post
            \<and> \<not> has_pair CHR ''*'' CHR ''/'' (pre @ ''/'')
            \<and> \<not> has_pair CHR ''/'' CHR ''*'' (pre @ ''/'') \<longrightarrow>
          (\<exists>n. process_loop tags methods (Ch CHR ''/'') left st
                  = Some (Inl (error n ''nested comment.''))))
       \<and> (\<not> has_pair CHR ''*'' CHR ''/'' after \<and> \<not> has_pair CHR ''/'' CHR ''*'' after \<longrightarrow>
          (\<exists>n. process_loop tags methods (Ch CHR ''/'') left st
                  = Some (Inl (error n ''unterminated comment.''))))"
proof -
  from process_step_comment [OF assms, of methods left] obtain st5 where
    f5: "ok st5" "rest st5 = after" "out st5 = out st @ ''/*'' @ tag"
    and ps: "process_step tags methods (Ch CHR ''/'') left st =
               (case comment_loop (head after) st5 of
                  Inl e \<Rightarrow> Some (Throw e)
                | Inr st6 \<Rightarrow>
                    (case get False st6 of (c2, st7) \<Rightarrow> Some (Next ((of_get c2, left), st7))))"
    by blast
  have pl: "process_loop tags methods (Ch CHR ''/'') left st =
              (case comment_loop (head after) st5 of
                 Inl e \<Rightarrow> Some (Inl e)
               | Inr st6 \<Rightarrow>
                   (case get False st6 of (c2, st7) \<Rightarrow>
                      process_loop tags methods (of_get c2) left st7))"
    by (subst process_loop.simps) (simp add: ps split: sum.splits prod.splits)
  have dbl: "x \<noteq> y \<Longrightarrow> has_pair x y (a # a # zs) = has_pair x y (a # zs)" for x y a zs
    by auto
  show ?thesis
  proof (intro conjI impI)
    assume h: "after = pre @ ''*/'' @ post
            \<and> \<not> has_pair CHR ''*'' CHR ''/'' (pre @ ''*'')
            \<and> \<not> has_pair CHR ''/'' CHR ''*'' (pre @ ''*'')"
    then obtain a where a: "after = a # tl after" "pre @ ''*'' = a # tl (pre @ ''*'')"
      by (cases pre) auto
    have e: "a # rest st5 = (a # pre) @ ''*/'' @ post" using h f5(2) by simp
    from h a(2) have n: "\<not> has_pair CHR ''*'' CHR ''/'' ((a # pre) @ ''*'')"
      "\<not> has_pair CHR ''/'' CHR ''*'' ((a # pre) @ ''*'')"
      using dbl [of "CHR ''*''" "CHR ''/''" a "tl (pre @ ''*'')"]
        dbl [of "CHR ''/''" "CHR ''*''" a "tl (pre @ ''*'')"]
      by auto
    from comment_loop_closes [OF f5(1) e n] obtain st6 where
      c: "comment_loop (Some a) st5 = Inr st6" and m: "moves st5 (pre @ ''*/'') (pre @ ''*/'') st6"
      by auto
    from m f5 h have f6: "ok st6" "rest st6 = post" "out st6 = out st @ ''/*'' @ tag @ pre @ ''*/''"
      by (simp_all add: moves_def)
    obtain c2 st7 where g: "get False st6 = (c2, st7)" by force
    from get_rest [OF g f6(1)] f6 have "ok st7" "c2 = head post" "rest st7 = tl post"
      "out st7 = out st @ ''/*'' @ tag @ pre @ ''*/''"
      by simp_all
    moreover from pl c g a(1) have "process_loop tags methods (Ch CHR ''/'') left st
                    = process_loop tags methods (of_get c2) left st7"
      by (simp add: head_def split: list.splits)
    ultimately show "\<exists>st'. process_loop tags methods (Ch CHR ''/'') left st
                    = process_loop tags methods (of_get (head post)) left st'
                  \<and> ok st' \<and> rest st' = tl post
                  \<and> out st' = out st @ ''/*'' @ tag @ pre @ ''*/''"
      by blast
  next
    assume h: "after = pre @ ''/*'' @ post
            \<and> \<not> has_pair CHR ''*'' CHR ''/'' (pre @ ''/'')
            \<and> \<not> has_pair CHR ''/'' CHR ''*'' (pre @ ''/'')"
    then obtain a where a: "after = a # tl after" "pre @ ''/'' = a # tl (pre @ ''/'')"
      by (cases pre) auto
    have e: "a # rest st5 = (a # pre) @ ''/*'' @ post" using h f5(2) by simp
    from h a(2) have n: "\<not> has_pair CHR ''*'' CHR ''/'' ((a # pre) @ ''/'')"
      "\<not> has_pair CHR ''/'' CHR ''*'' ((a # pre) @ ''/'')"
      using dbl [of "CHR ''*''" "CHR ''/''" a "tl (pre @ ''/'')"]
        dbl [of "CHR ''/''" "CHR ''*''" a "tl (pre @ ''/'')"]
      by auto
    from comment_loop_nested [OF f5(1) e n] obtain k where
      "comment_loop (Some a) st5 = Inl (error k ''nested comment.'')" by blast
    with pl a(1) have "process_loop tags methods (Ch CHR ''/'') left st
                  = Some (Inl (error k ''nested comment.''))"
      by (simp add: head_def split: list.splits)
    then show "\<exists>n. process_loop tags methods (Ch CHR ''/'') left st
                  = Some (Inl (error n ''nested comment.''))" by blast
  next
    assume h: "\<not> has_pair CHR ''*'' CHR ''/'' after \<and> \<not> has_pair CHR ''/'' CHR ''*'' after"
    show "\<exists>n. process_loop tags methods (Ch CHR ''/'') left st
                  = Some (Inl (error n ''unterminated comment.''))"
    proof (cases after)
      case Nil
      with assms(4) show ?thesis by (simp add: head_def is_alphanum_def)
    next
      case (Cons a as)
      with h f5(2) have n: "\<not> has_pair CHR ''*'' CHR ''/'' (a # rest st5)"
        "\<not> has_pair CHR ''/'' CHR ''*'' (a # rest st5)"
        using dbl [of "CHR ''*''" "CHR ''/''" a as] dbl [of "CHR ''/''" "CHR ''*''" a as]
        by auto
      from comment_loop_unterminated [OF f5(1) n] obtain k where
        "comment_loop (Some a) st5 = Inl (error k ''unterminated comment.'')" by blast
      with pl Cons have "process_loop tags methods (Ch CHR ''/'') left st
                  = Some (Inl (error k ''unterminated comment.''))"
        by (simp add: head_def)
      then show ?thesis by blast
    qed
  qed
qed


text \<open>The theorem at the comment of \<^verbatim>\<open>/*unknown stuff*/\<close>, and the whole conversion
  of that text.\<close>

theorem C2_unknown_comment_witness:
  "ok at_unknown \<and> rest at_unknown = CHR ''*'' # ''unknown'' @ ('' stuff*/'' @ [NL])
   \<and> list_all alnum ''unknown'' \<and> \<not> is_alphanum (head ('' stuff*/'' @ [NL]))
   \<and> ''unknown'' \<notin> set [''debug'']
   \<and> '' stuff*/'' @ [NL] = '' stuff'' @ ''*/'' @ [NL]
   \<and> \<not> has_pair CHR ''*'' CHR ''/'' ('' stuff'' @ ''*'')
   \<and> \<not> has_pair CHR ''/'' CHR ''*'' ('' stuff'' @ ''*'')
   \<and> (\<exists>st'. process_loop [''debug''] [None] (Ch CHR ''/'') None at_unknown
               = process_loop [''debug''] [None] (of_get (head [NL])) None st'
             \<and> ok st' \<and> rest st' = tl [NL]
             \<and> out st' = out at_unknown @ ''/*'' @ ''unknown'' @ '' stuff'' @ ''*/'')
   \<and> fst (jsdev (SourceString ''/*unknown stuff*/'') (TagsArray [''debug'']) NoComments)
       = Some (Inr ''/*unknown stuff*/\<newline>'')"
proof -
  have k: "ok at_unknown" by (simp add: ok_def at_unknown_def)
  have r: "rest at_unknown = CHR ''*'' # ''unknown'' @ ('' stuff*/'' @ [NL])"
    by (simp add: rest_def at_unknown_def stream_of_def)
  have a: "list_all alnum ''unknown''" by (simp add: is_alphanum_def)
  have h: "\<not> is_alphanum (head ('' stuff*/'' @ [NL]))" by (simp add: is_alphanum_def head_def)
  have t: "''unknown'' = [] \<or> ''unknown'' \<notin> set [''debug'']" by simp
  have p: "'' stuff*/'' @ [NL] = '' stuff'' @ ''*/'' @ [NL]
           \<and> \<not> has_pair CHR ''*'' CHR ''/'' ('' stuff'' @ ''*'')
           \<and> \<not> has_pair CHR ''/'' CHR ''*'' ('' stuff'' @ ''*'')"
    by simp
  have j: "fst (jsdev (SourceString ''/*unknown stuff*/'') (TagsArray [''debug'']) NoComments)
             = Some (Inr ''/*unknown stuff*/\<newline>'')"
    by (simp add: run_simps)
  from C2_unknown_comment [OF k r a h t, of "'' stuff''" "[NL]" "[None]" None] p
  have "\<exists>st'. process_loop [''debug''] [None] (Ch CHR ''/'') None at_unknown
               = process_loop [''debug''] [None] (of_get (head [NL])) None st'
             \<and> ok st' \<and> rest st' = tl [NL]
             \<and> out st' = out at_unknown @ ''/*'' @ ''unknown'' @ '' stuff'' @ ''*/''"
    by blast
  with k r a h p j show ?thesis by simp
qed

section \<open>Conversion of text without block comments\<close>





section \<open>A second conversion\<close>

text \<open>
  Claim C4, as stated: converting the output of a successful conversion again returns it
  unchanged, with no further substitution. Every run ends every line, the last included,
  with a line feed, so the second run of \<^verbatim>\<open>a\<close> adds a second line feed. And where the
  first run has expanded a tagged comment, the expansion can change how the text after it
  is read: in the second example a slash that followed \<^verbatim>\<open>a\<close> before the expansion
  follows \<^verbatim>\<open>}\<close> after it and now opens a regexp literal, so that a \<^verbatim>\<open>/*debug y*/\<close>
  that the first run skipped inside a string literal is expanded by the second.
\<close>

theorem C4_counterexample:
  \<open>fst (jsdev (SourceString ''a'') (TagsArray [''debug'']) NoComments) = Some (Inr ''a\<newline>'')
   \<and> fst (jsdev (SourceString ''a\<newline>'') (TagsArray [''debug'']) NoComments)
       = Some (Inr ''a\<newline>\<newline>'')
   \<and> fst (jsdev (SourceString ''a /*debug x*/ /"//*debug y*/"/ //"'') (TagsArray [''debug''])
            NoComments)
       = Some (Inr ''a {x} /"//*debug y*/"/ //"\<newline>'')
   \<and> fst (jsdev (SourceString ''a {x} /"//*debug y*/"/ //"\<newline>'') (TagsArray [''debug''])
            NoComments)
       = Some (Inr ''a {x} /"/{y}"/ //"\<newline>\<newline>'')\<close>
  by (simp add: run_simps)

text \<open>
  Claim C4, amended. For a source text whose stream nowhere has \<^verbatim>\<open>/\<close> immediately
  followed by \<^verbatim>\<open>*\<close>, with well-formed tags and no header: if the conversion succeeds,
  then converting its output again (with the same or any other well-formed tags) succeeds
  and returns that output followed by one more line feed.
\<close>

theorem C4_second_run:
  assumes "list_all well_formed ts" and "list_all well_formed ts2"
    and "\<not> has_pair CHR ''/'' CHR ''*'' (stream_of (split_lines s))"
    and "fst (jsdev (SourceString s) (TagsArray ts) NoComments) = Some (Inr text)"
  shows "fst (jsdev (SourceString text) (TagsArray ts2) NoComments) = Some (Inr (text @ [NL]))"
proof -
  let ?ls = "split_lines s"
  have sl: "source_lines (SourceString s) = ?ls" by (simp add: source_lines_def)
  note t = jsdev_total [of _ _ NoComments]
  from assms(4) have a4: "fst (jsdev2 (SourceString s) (TagsArray ts) NoComments) = Inr text"
    by (simp add: t)
  from jsdev2_plain [OF assms(1), of "SourceString s"] assms(3) a4 sl
  have tx: "text = stream_of ?ls" by simp
  have "list_all clean ?ls"
    unfolding split_lines_def by (rule split_from_clean) (simp add: clean_def)
  then have l2: "split_lines text = ?ls @ [[]]" unfolding tx by (rule split_lines_stream)
  then have sl2: "source_lines (SourceString text) = ?ls @ [[]]" by (simp add: source_lines_def)
  from assms(3) have np: "\<not> has_pair CHR ''/'' CHR ''*'' (stream_of (?ls @ [[]]))"
    by (simp add: stream_of_snoc has_pair_snoc)
  note p2 = jsdev2_plain [OF assms(2), of "SourceString text", unfolded sl2, OF np]
  obtain r1 ts1 where t1: "tags_map (- 1) [] ts [] = (r1, ts1)" by force
  with tags_map_ok [OF assms(1), of "- 1" "[]" "[]"] obtain ms1 where r1: "r1 = Inr ms1" by auto
  obtain r2 ts2' where t2: "tags_map (- 1) [] ts2 [] = (r2, ts2')" by force
  with tags_map_ok [OF assms(2), of "- 1" "[]" "[]"] obtain ms2 where r2: "r2 = Inr ms2" by auto
  from a4 t1 r1 obtain st' where
    "process2 ts1 ms1 (init\<lparr>lines := ?ls\<rparr>) = Inr st'"
    by (auto simp: jsdev2_def header_def init_def split: sum.splits)
  with process2_tags [OF assms(3), of ts2' ms2 ts1 ms1]
  have "process2 ts2' ms2 (init\<lparr>lines := ?ls\<rparr>) = Inr st'" by simp
  from process2_ext [OF this assms(3)] obtain s' where
    "process2 ts2' ms2 (init\<lparr>lines := ?ls @ [[]]\<rparr>) = Inr s'" by blast
  with t2 r2 l2 have "\<exists>x. fst (jsdev2 (SourceString text) (TagsArray ts2) NoComments) = Inr x"
    by (auto simp: jsdev2_def header_def init_def)
  with p2 show ?thesis by (auto simp: stream_of_snoc tx t)
qed


theorem C4_second_run_witness:
  "list_all well_formed [''debug'']
   \<and> \<not> has_pair CHR ''/'' CHR ''*'' (stream_of (split_lines ''x = a / b; // y''))
   \<and> fst (jsdev (SourceString ''x = a / b; // y'') (TagsArray [''debug'']) NoComments)
       = Some (Inr ''x = a / b; // y\<newline>'')
   \<and> fst (jsdev (SourceString ''x = a / b; // y\<newline>'') (TagsArray [''debug'']) NoComments)
       = Some (Inr (''x = a / b; // y\<newline>'' @ [NL]))"
proof -
  have w: "list_all well_formed [''debug'']"
    by (simp add: well_formed_def tagx_exec_def is_alphanum_def Let_def)
  have h: "\<not> has_pair CHR ''/'' CHR ''*'' (stream_of (split_lines ''x = a / b; // y''))"
    by (simp add: stream_of_def split_lines_def)
  have j: "fst (jsdev (SourceString ''x = a / b; // y'') (TagsArray [''debug'']) NoComments)
             = Some (Inr ''x = a / b; // y\<newline>'')"
    by (simp add: run_simps)
  from C4_second_run [OF w w h j] w h j show ?thesis by simp
qed

end
